theory Spec2Isabelle
  imports Complex_Main "HOL-Library.Word"
begin

unbundle bit_operations_syntax

section \<open>Conventions of the embedding\<close>

text \<open>
  The Go sources of the denoiser (\<^verbatim>\<open>fft.go\<close>, \<^verbatim>\<open>window.go\<close>, \<^verbatim>\<open>denoise.go\<close>,
  \<^verbatim>\<open>wav.go\<close>) are translated function by function.

  \<^item> A \<^verbatim>\<open>[]float64\<close> is a \<^typ>\<open>real list\<close> and a \<^verbatim>\<open>[]complex128\<close> a
    \<^typ>\<open>complex list\<close>: arithmetic is exact, rounding, infinities and NaN are outside
    this model. A model of \<^verbatim>\<open>FFT\<close> and \<^verbatim>\<open>IFFT\<close> in binary64 arithmetic follows it in a
    section of its own.
  \<^item> A Go \<^verbatim>\<open>int\<close> that holds a length, an index or a loop counter is a \<^typ>\<open>nat\<close>;
    where the source can see a negative value it is an \<^typ>\<open>int\<close>. None of the
    quantities below can reach \<open>2 ^ 63\<close>, since they are bounded by slice lengths.
  \<^item> A panic is the left summand of \<open>error + 'a\<close>: the explicit
    \<^verbatim>\<open>panic("fft: length must be a power of 2")\<close> is \<open>InvalidLength\<close>, the runtime's
    index or slice-bounds panic is \<open>OutOfRange\<close>, the panic of \<^verbatim>\<open>make\<close> on a
    length that is negative or too large is \<open>MakeSliceLen\<close>.
  \<^item> A counting loop \<^verbatim>\<open>for i := a; i < b; i++\<close> is a fold of its body over \<open>[a..<b]\<close>
    that stops at the first panic.
\<close>

datatype error = InvalidLength | OutOfRange | MakeSliceLen

definition bindE :: "error + 'a \<Rightarrow> ('a \<Rightarrow> error + 'b) \<Rightarrow> error + 'b" where
  "bindE r f = (case r of Inl e \<Rightarrow> Inl e | Inr v \<Rightarrow> f v)"

fun foldE :: "(nat \<Rightarrow> 's \<Rightarrow> error + 's) \<Rightarrow> nat list \<Rightarrow> 's \<Rightarrow> error + 's" where
  "foldE f [] s = Inr s"
| "foldE f (i # is) s = bindE (f i s) (foldE f is)"

text \<open>Checked reads and writes of a slice element.\<close>

definition idx :: "'a list \<Rightarrow> nat \<Rightarrow> error + 'a" where
  "idx xs i = (if i < length xs then Inr (xs ! i) else Inl OutOfRange)"

definition upd :: "'a list \<Rightarrow> nat \<Rightarrow> 'a \<Rightarrow> error + 'a list" where
  "upd xs i v = (if i < length xs then Inr (xs[i := v]) else Inl OutOfRange)"

section \<open>The FFT kernel\<close>

text \<open>\<^verbatim>\<open>isPowerOf2\<close>: \<^verbatim>\<open>n > 0 && (n&(n-1)) == 0\<close>.\<close>

definition isPowerOf2 :: "int \<Rightarrow> bool" where
  "isPowerOf2 n \<longleftrightarrow> n > 0 \<and> (n AND (n - 1)) = 0"

text \<open>
  \<^verbatim>\<open>int(math.Log2(float64(n)))\<close>. Both callers reach it only with \<open>n\<close> a power of two,
  where Go's \<^verbatim>\<open>math.Log2\<close> is exact (it reads the exponent); \<open>ilog2\<close> is the
  integer logarithm, which agrees with it there.
\<close>

fun ilog2 :: "nat \<Rightarrow> nat" where
  "ilog2 n = (if n < 2 then 0 else Suc (ilog2 (n div 2)))"

declare ilog2.simps [simp del]

text \<open>
  \<^verbatim>\<open>reverseBits\<close>: \<open>bits\<close> rounds of \<^verbatim>\<open>r = (r << 1) | (v & 1); v >>= 1\<close>. The loop body
  does not read the counter, so the model counts the rounds that remain.
\<close>

fun reverseBits_loop :: "nat \<Rightarrow> nat \<Rightarrow> nat \<Rightarrow> nat" where
  "reverseBits_loop 0 r v = r"
| "reverseBits_loop (Suc c) r v =
     reverseBits_loop c (push_bit 1 r OR (v AND 1)) (drop_bit 1 v)"

definition reverseBits :: "nat \<Rightarrow> nat \<Rightarrow> nat" where
  "reverseBits v bits = reverseBits_loop bits 0 v"

text \<open>
  \<^verbatim>\<open>bitReverse\<close>: swap \<open>x[i]\<close> and \<open>x[j]\<close> for \<open>j = reverseBits i bits > i\<close>. The elements
  are only moved, so the model leaves their type open.
\<close>

definition swap_step :: "nat \<Rightarrow> nat \<Rightarrow> 'a list \<Rightarrow> error + 'a list" where
  "swap_step bits i x =
     (let j = reverseBits i bits in
      if j > i then
        bindE (idx x j) (\<lambda>xj.
        bindE (idx x i) (\<lambda>xi.
        bindE (upd x i xj) (\<lambda>x1.
        upd x1 j xi)))
      else Inr x)"

definition bitReverse :: "'a list \<Rightarrow> error + 'a list" where
  "bitReverse x =
     (let n = length x; bits = ilog2 n in foldE (swap_step bits) [0..<n] x)"

text \<open>
  One butterfly of \<^verbatim>\<open>FFT\<close>, the body of the innermost loop. The state is the
  buffer \<open>out\<close> and the running twiddle \<open>w\<close>.
\<close>

definition butterfly ::
  "nat \<Rightarrow> complex \<Rightarrow> nat \<Rightarrow> nat \<Rightarrow> complex list \<times> complex \<Rightarrow> error + complex list \<times> complex" where
  "butterfly m wm k j = (\<lambda>(out, w).
     bindE (idx out (k + j + m div 2)) (\<lambda>a.
     let t = w * a in
     bindE (idx out (k + j)) (\<lambda>u.
     bindE (upd out (k + j) (u + t)) (\<lambda>out1.
     bindE (upd out1 (k + j + m div 2) (u - t)) (\<lambda>out2.
     Inr (out2, w * wm))))))"

text \<open>The loop \<^verbatim>\<open>for j := 0; j < m/2; j++\<close> of one span, started with \<open>w = 1\<close>.\<close>

definition span :: "nat \<Rightarrow> complex \<Rightarrow> nat \<Rightarrow> complex list \<Rightarrow> error + complex list" where
  "span m wm k out =
     bindE (foldE (butterfly m wm k) [0..<m div 2] (out, 1)) (\<lambda>(out', w). Inr out')"

text \<open>The loop \<^verbatim>\<open>for k := 0; k < n; k += m\<close> with \<open>m = 1 << s\<close>.\<close>

function spans :: "nat \<Rightarrow> nat \<Rightarrow> complex \<Rightarrow> nat \<Rightarrow> complex list \<Rightarrow> error + complex list" where
  "spans n s wm k out =
     (if k < n then
        (case span (2 ^ s) wm k out of
           Inl e \<Rightarrow> Inl e
         | Inr out' \<Rightarrow> spans n s wm (k + 2 ^ s) out')
      else Inr out)"
  by pat_completeness auto
termination
proof (relation "measure (\<lambda>(n, s, wm, k, out). n - k)")
  show "wf (measure (\<lambda>(n, s, wm, k, out). n - k))"
    by simp
next
  fix n s :: nat and wm :: complex and k :: nat and out b :: "complex list"
  assume "k < n"
  moreover have "(0::nat) < 2 ^ s"
    by simp
  ultimately have "n - (k + 2 ^ s) < n - k"
    by linarith
  then show "((n, s, wm, k + 2 ^ s, b), (n, s, wm, k, out)) \<in> measure (\<lambda>(n, s, wm, k, out). n - k)"
    by simp
qed

declare spans.simps [simp del]

text \<open>One butterfly stage \<open>s\<close>: the twiddle \<^verbatim>\<open>cmplx.Exp(complex(0, -2*math.Pi/float64(m)))\<close>.\<close>

definition stage :: "nat \<Rightarrow> nat \<Rightarrow> complex list \<Rightarrow> error + complex list" where
  "stage n s out =
     (let m = 2 ^ s; wm = exp (Complex 0 (- 2 * pi / real m)) in spans n s wm 0 out)"

definition FFT :: "complex list \<Rightarrow> error + complex list" where
  "FFT x =
     (let n = length x in
      if n = 0 then Inr []
      else if \<not> isPowerOf2 (int n) then Inl InvalidLength
      else bindE (bitReverse x) (\<lambda>out. foldE (stage n) [1..<Suc (ilog2 n)] out))"

text \<open>\<^verbatim>\<open>IFFT\<close>: conjugate, forward transform, conjugate and divide by \<open>n\<close>.\<close>

definition IFFT :: "complex list \<Rightarrow> error + complex list" where
  "IFFT X =
     (let n = length X in
      if n = 0 then Inr []
      else bindE (FFT (map cnj X)) (\<lambda>result.
           Inr (map (\<lambda>v. cnj v / Complex (real n) 0) result)))"

section \<open>Window and framing utilities\<close>

definition FrameSize :: nat where
  "FrameSize = 2048"

definition HopSize :: nat where
  "HopSize = FrameSize div 2"

definition NoiseFrames :: nat where
  "NoiseFrames = 10"

definition SpectralFloor :: real where
  "SpectralFloor = 0.02"

definition OverSubtract :: real where
  "OverSubtract = 2.0"

text \<open>\<^verbatim>\<open>HannWindow\<close> (\<^verbatim>\<open>window.go\<close>).\<close>

definition HannWindow :: "int \<Rightarrow> real list" where
  "HannWindow n =
     (if n \<le> 1 then [1.0]
      else map (\<lambda>i. 0.5 * (1 - cos (2 * pi * real i / real_of_int (n - 1)))) [0..<nat n])"

text \<open>
  Go's builtin \<^verbatim>\<open>copy(dst, src)\<close>: the first \<open>min (len dst) (len src)\<close> elements of
  \<open>dst\<close> are overwritten.
\<close>

definition copy_slice :: "'a list \<Rightarrow> 'a list \<Rightarrow> 'a list" where
  "copy_slice dst src = take (length dst) src @ drop (length src) dst"

text \<open>
  The limit of \<^verbatim>\<open>make\<close>: the runtime function \<^verbatim>\<open>makeslice\<close> panics (\<^verbatim>\<open>len out of range\<close>)
  on a negative length and on a length whose size in bytes exceeds its constant
  \<^verbatim>\<open>maxAlloc\<close>, which is \<open>2 ^ 48\<close> on the 64-bit platforms. A \<^verbatim>\<open>float64\<close> takes 8 bytes.
  An allocation within the limit that the machine cannot serve ends the process; it is not
  a panic, and the model, like every model of a program, assumes the memory is there.
\<close>

definition maxAlloc :: int where
  "maxAlloc = 2 ^ 48"

text \<open>
  \<^verbatim>\<open>extractFrame\<close>, with \<open>sz\<close> for the parameter \<^verbatim>\<open>size\<close>. \<^verbatim>\<open>make([]float64, size)\<close>
  panics on a negative length and beyond \<^const>\<open>maxAlloc\<close>; the slice expression
  \<^verbatim>\<open>src[start:end]\<close> panics unless \<open>0 \<le> start \<le> end\<close> (\<open>end \<le> len(src)\<close> holds
  after the clamp). For a size that \<^verbatim>\<open>make\<close> accepts and a \<open>start\<close> within a slice,
  \<open>start + size\<close> is far below \<open>2 ^ 63\<close>: the sum does not wrap.
\<close>

definition extractFrame :: "real list \<Rightarrow> int \<Rightarrow> int \<Rightarrow> error + real list" where
  "extractFrame src start sz =
     (if sz < 0 \<or> sz * 8 > maxAlloc then Inl MakeSliceLen
      else
        let frame = replicate (nat sz) (0::real);
            end0 = start + sz;
            end1 = (if end0 > int (length src) then int (length src) else end0)
        in if start < 0 \<or> start > end1 then Inl OutOfRange
           else Inr (copy_slice frame (take (nat end1 - nat start) (drop (nat start) src))))"

text \<open>\<^verbatim>\<open>applyWindow\<close>: \<^verbatim>\<open>frame[i] *= window[i]\<close> for every index of \<open>frame\<close>.\<close>

definition applyWindow :: "real list \<Rightarrow> real list \<Rightarrow> error + real list" where
  "applyWindow frame window =
     foldE (\<lambda>i fr.
        bindE (idx fr i) (\<lambda>v.
        bindE (idx window i) (\<lambda>w.
        upd fr i (v * w)))) [0..<length frame] frame"

definition realToComplex :: "real list \<Rightarrow> complex list" where
  "realToComplex x = map (\<lambda>v. Complex v 0) x"

text \<open>\<^verbatim>\<open>normalize\<close>: the peak search, the silence gate and the gain.\<close>

definition peak_of :: "real list \<Rightarrow> real" where
  "peak_of samples = fold (\<lambda>s peak. let a = \<bar>s\<bar> in if a > peak then a else peak) samples 0"

definition normalize :: "real list \<Rightarrow> real \<Rightarrow> real list" where
  "normalize samples targetLevel =
     (let peak = peak_of samples in
      if peak < 1 / 10 ^ 10 then samples
      else let gain = targetLevel / peak in map (\<lambda>s. s * gain) samples)"

section \<open>The denoise pipeline\<close>

text \<open>
  \<^verbatim>\<open>cmplx.Phase\<close> is \<^verbatim>\<open>math.Atan2(imag, real)\<close> and \<^verbatim>\<open>cmplx.Rect\<close> is
  \<open>r * (cos \<theta> + i sin \<theta>)\<close>; \<^verbatim>\<open>cmplx.Abs\<close> is \<^const>\<open>cmod\<close>.
\<close>

definition atan2 :: "real \<Rightarrow> real \<Rightarrow> real" where
  "atan2 y x =
     (if x > 0 then arctan (y / x)
      else if x < 0 then (if y \<ge> 0 then arctan (y / x) + pi else arctan (y / x) - pi)
      else if y > 0 then pi / 2
      else if y < 0 then - pi / 2
      else 0)"

definition Phase :: "complex \<Rightarrow> real" where
  "Phase z = atan2 (Im z) (Re z)"

definition Rect :: "real \<Rightarrow> real \<Rightarrow> complex" where
  "Rect r \<theta> = Complex (r * cos \<theta>) (r * sin \<theta>)"

text \<open>The windowed spectrum of the frame that starts at \<open>fi * HopSize\<close>.\<close>

definition frame_spectrum :: "real list \<Rightarrow> real list \<Rightarrow> nat \<Rightarrow> error + complex list" where
  "frame_spectrum samples window fi =
     (let start = fi * HopSize in
      bindE (extractFrame samples (int start) (int FrameSize)) (\<lambda>frame0.
      bindE (applyWindow frame0 window) (\<lambda>frame.
      let cx = realToComplex frame in FFT cx)))"

text \<open>Step 1 of \<^verbatim>\<open>Denoise\<close>: one frame adds its magnitudes to \<open>noiseMag\<close>.\<close>

definition noise_frame :: "real list \<Rightarrow> real list \<Rightarrow> nat \<Rightarrow> real list \<Rightarrow> error + real list" where
  "noise_frame samples window fi noiseMag =
     bindE (frame_spectrum samples window fi) (\<lambda>spectrum.
     foldE (\<lambda>k nm.
        bindE (idx spectrum k) (\<lambda>z.
        bindE (idx nm k) (\<lambda>v.
        upd nm k (v + cmod z)))) [0..<FrameSize] noiseMag)"

text \<open>Step 2: spectral subtraction of one bin, with the gain floor.\<close>

definition subtract_bin :: "real list \<Rightarrow> nat \<Rightarrow> complex list \<Rightarrow> error + complex list" where
  "subtract_bin noiseMag k spectrum =
     bindE (idx spectrum k) (\<lambda>z.
     let mag = cmod z; phase = Phase z in
     bindE (idx noiseMag k) (\<lambda>nm.
     let cleanMag0 = mag - OverSubtract * nm;
         floorMag = SpectralFloor * mag;
         cleanMag = (if cleanMag0 < floorMag then floorMag else cleanMag0)
     in upd spectrum k (Rect cleanMag phase)))"

text \<open>Step 2: overlap-add of sample \<open>j\<close> of a cleaned frame into \<open>(output, windowSum)\<close>.\<close>

definition overlap_add ::
  "nat \<Rightarrow> nat \<Rightarrow> complex list \<Rightarrow> real list \<Rightarrow> nat \<Rightarrow> real list \<times> real list
     \<Rightarrow> error + real list \<times> real list" where
  "overlap_add n start cleaned window j = (\<lambda>(output, windowSum).
     let i = start + j in
     if i < n then
       bindE (idx cleaned j) (\<lambda>c.
       bindE (idx window j) (\<lambda>w.
       bindE (idx output i) (\<lambda>ov.
       bindE (upd output i (ov + Re c * w)) (\<lambda>output'.
       bindE (idx windowSum i) (\<lambda>sv.
       bindE (upd windowSum i (sv + w * w)) (\<lambda>windowSum'.
       Inr (output', windowSum')))))))
     else Inr (output, windowSum))"

definition process_frame ::
  "real list \<Rightarrow> real list \<Rightarrow> real list \<Rightarrow> nat \<Rightarrow> nat \<Rightarrow> real list \<times> real list
     \<Rightarrow> error + real list \<times> real list" where
  "process_frame samples window noiseMag n fi acc =
     (let start = fi * HopSize in
      bindE (frame_spectrum samples window fi) (\<lambda>spectrum0.
      bindE (foldE (subtract_bin noiseMag) [0..<FrameSize] spectrum0) (\<lambda>spectrum.
      bindE (IFFT spectrum) (\<lambda>cleaned.
      foldE (overlap_add n start cleaned window) [0..<FrameSize] acc))))"

text \<open>
  \<^verbatim>\<open>Denoise\<close> up to the end of step 2, for a non-empty input: the padded length \<open>n\<close>
  and the two accumulators \<open>output\<close> and \<open>windowSum\<close>. Here \<open>n \<ge> FrameSize\<close>, so
  \<open>n - FrameSize\<close> is the source's subtraction.
\<close>

definition accumulate :: "real list \<Rightarrow> error + nat \<times> real list \<times> real list" where
  "accumulate samples0 =
     (let n0 = length samples0;
          samples = (if n0 < FrameSize then copy_slice (replicate FrameSize 0) samples0 else samples0);
          n = (if n0 < FrameSize then FrameSize else n0);
          totalFrames0 = (n - FrameSize) div HopSize + 1;
          totalFrames = (if totalFrames0 < 1 then 1 else totalFrames0);
          noiseFrames = (if NoiseFrames > totalFrames then totalFrames else NoiseFrames);
          window = HannWindow (int FrameSize)
      in
      bindE (foldE (noise_frame samples window) [0..<noiseFrames] (replicate FrameSize 0)) (\<lambda>noiseSum.
      let noiseMag = map (\<lambda>v. v / real noiseFrames) noiseSum in
      bindE (foldE (process_frame samples window noiseMag n) [0..<totalFrames]
               (replicate n 0, replicate n 0)) (\<lambda>(output, windowSum).
      Inr (n, output, windowSum))))"

text \<open>Step 3: \<^verbatim>\<open>if windowSum[i] > 1e-8 { output[i] /= windowSum[i] }\<close>.\<close>

definition divide_step :: "real list \<Rightarrow> nat \<Rightarrow> real list \<Rightarrow> error + real list" where
  "divide_step windowSum i output =
     bindE (idx windowSum i) (\<lambda>sv.
     if sv > 1 / 10 ^ 8 then bindE (idx output i) (\<lambda>ov. upd output i (ov / sv))
     else Inr output)"

text \<open>
  \<^verbatim>\<open>Denoise\<close>. The result \<^verbatim>\<open>nil\<close> for an empty input is the empty list. The
  parameter \<open>sampleRate\<close> is kept, as in the source.
\<close>

definition Denoise :: "real list \<Rightarrow> int \<Rightarrow> error + real list" where
  "Denoise samples sampleRate =
     (if length samples = 0 then Inr []
      else
        bindE (accumulate samples) (\<lambda>(n, output0, windowSum).
        bindE (foldE (divide_step windowSum) [0..<n] output0) (\<lambda>output.
        Inr (normalize output 0.95))))"

section \<open>Closed forms of the loops\<close>

text \<open>
  The values that the loops of the source leave behind, written without recursion; the
  proofs show that the loops compute them. \<open>span_upto h wm k J out\<close> is \<open>out\<close> after the first
  \<open>J\<close> butterflies of the span at \<open>k\<close> with half-width \<open>h\<close>; \<open>stage_from h wm k out\<close> is
  \<open>out\<close> with the butterflies of every span from \<open>k\<close> on done; \<open>swapped_upto L I x\<close> is \<open>x\<close>
  after the first \<open>I\<close> iterations of \<^verbatim>\<open>bitReverse\<close>.
\<close>

definition span_upto :: "nat \<Rightarrow> complex \<Rightarrow> nat \<Rightarrow> nat \<Rightarrow> complex list \<Rightarrow> complex list" where
  "span_upto h wm k J out =
     map (\<lambda>p. if k \<le> p \<and> p < k + J then out ! p + wm ^ (p - k) * out ! (p + h)
               else if k + h \<le> p \<and> p < k + h + J then out ! (p - h) - wm ^ (p - k - h) * out ! p
               else out ! p) [0..<length out]"

definition stage_from :: "nat \<Rightarrow> complex \<Rightarrow> nat \<Rightarrow> complex list \<Rightarrow> complex list" where
  "stage_from h wm k out =
     map (\<lambda>p. if p < k then out ! p
               else if p mod (2 * h) < h then out ! p + wm ^ (p mod (2 * h)) * out ! (p + h)
               else out ! (p - h) - wm ^ (p mod (2 * h) - h) * out ! p) [0..<length out]"

definition swapped_upto :: "nat \<Rightarrow> nat \<Rightarrow> 'a list \<Rightarrow> 'a list" where
  "swapped_upto L I x =
     map (\<lambda>p. if p < I \<or> reverseBits p L < I then x ! reverseBits p L else x ! p) [0..<length x]"

text \<open>
  The twiddle factor \<open>exp (-2\<pi>i / m)\<close>, the discrete Fourier transform as the sum it
  is defined by, and the invariant of the stage loop: after stage \<open>s\<close>, every block of
  \<open>2 ^ s\<close> elements of \<open>out\<close> is the transform of a decimated subsequence of \<open>x\<close>.
\<close>

definition twiddle :: "nat \<Rightarrow> complex" where
  "twiddle m = cis (- 2 * pi / real m)"

definition DFT :: "complex list \<Rightarrow> complex list" where
  "DFT x = map (\<lambda>k. \<Sum>t<length x. x ! t * twiddle (length x) ^ (k * t)) [0..<length x]"

definition stage_inv :: "complex list \<Rightarrow> nat \<Rightarrow> nat \<Rightarrow> complex list \<Rightarrow> bool" where
  "stage_inv x L s out \<longleftrightarrow>
     length out = 2 ^ L \<and>
     (\<forall>b<2 ^ (L - s). \<forall>j<2 ^ s.
        out ! (b * 2 ^ s + j) =
        (\<Sum>t<2 ^ s. x ! (t * 2 ^ (L - s) + reverseBits b (L - s)) * twiddle (2 ^ s) ^ (j * t)))"

text \<open>
  The spectrum of frame \<open>fi\<close>, a bin after the subtraction, and the frame that \<^verbatim>\<open>IFFT\<close>
  returns from the subtracted spectrum.
\<close>

definition spectrum_of :: "real list \<Rightarrow> nat \<Rightarrow> complex list" where
  "spectrum_of samples fi =
     DFT (realToComplex (map (\<lambda>i. samples ! (fi * HopSize + i) * HannWindow (int FrameSize) ! i)
                           [0..<FrameSize]))"

definition clean_bin :: "real \<Rightarrow> complex \<Rightarrow> complex" where
  "clean_bin nm z =
     (let mag = cmod z; phase = Phase z;
          cleanMag0 = mag - OverSubtract * nm;
          floorMag = SpectralFloor * mag;
          cleanMag = (if cleanMag0 < floorMag then floorMag else cleanMag0)
      in Rect cleanMag phase)"

definition cleaned_of :: "real list \<Rightarrow> real list \<Rightarrow> nat \<Rightarrow> complex list" where
  "cleaned_of samples noiseMag fi =
     map (\<lambda>v. cnj v / Complex (real FrameSize) 0)
       (DFT (map cnj (map (\<lambda>k. clean_bin (noiseMag ! k) (spectrum_of samples fi ! k)) [0..<FrameSize])))"

text \<open>
  The accumulators: \<open>added start N g xs\<close> is \<open>xs\<close> with \<open>g j\<close> added at \<open>start + j\<close> for
  \<open>j < N\<close>; \<open>frames_of n\<close> is \<open>totalFrames\<close>; \<open>windowSum_upto n F\<close> is \<open>windowSum\<close> after \<open>F\<close>
  frames; \<open>padded\<close> is the zero-padding of a short input; \<open>divided\<close> is \<open>output\<close> after step 3;
  \<open>built_windowSum\<close> is the \<open>windowSum\<close> that the run of \<^const>\<open>accumulate\<close> leaves.
\<close>

definition added :: "nat \<Rightarrow> nat \<Rightarrow> (nat \<Rightarrow> real) \<Rightarrow> real list \<Rightarrow> real list" where
  "added start N g xs =
     map (\<lambda>p. if start \<le> p \<and> p < start + N then xs ! p + g (p - start) else xs ! p) [0..<length xs]"

definition frames_of :: "nat \<Rightarrow> nat" where
  "frames_of n = (n - FrameSize) div HopSize + 1"

definition windowSum_upto :: "nat \<Rightarrow> nat \<Rightarrow> real list" where
  "windowSum_upto n F =
     map (\<lambda>i. \<Sum>fi<F. if fi * HopSize \<le> i \<and> i < fi * HopSize + FrameSize
                       then (HannWindow (int FrameSize) ! (i - fi * HopSize))\<^sup>2 else 0) [0..<n]"

definition padded :: "real list \<Rightarrow> real list" where
  "padded samples0 =
     (if length samples0 < FrameSize then copy_slice (replicate FrameSize 0) samples0 else samples0)"

definition windowSum_of :: "real list \<Rightarrow> real list" where
  "windowSum_of samples0 =
     windowSum_upto (length (padded samples0)) (frames_of (length (padded samples0)))"

definition divided :: "real list \<Rightarrow> real list \<Rightarrow> real list" where
  "divided windowSum output =
     map (\<lambda>p. if windowSum ! p > 1 / 10 ^ 8 then output ! p / windowSum ! p else output ! p)
       [0..<length output]"

definition built_windowSum :: "real list \<Rightarrow> real list" where
  "built_windowSum samples =
     (case accumulate samples of Inl e \<Rightarrow> [] | Inr (n, outp, windowSum) \<Rightarrow> windowSum)"

section \<open>The WAV codec\<close>

text \<open>
  The WAV codec (\<^verbatim>\<open>wav.go\<close>). A \<^verbatim>\<open>[]byte\<close> is a list of 8-bit words. The errors
  \<^verbatim>\<open>ReadWAV\<close> returns are values of \<open>wav_error\<close>, one per \<^verbatim>\<open>errors.New\<close> or
  \<^verbatim>\<open>fmt.Errorf\<close> of the source, in its order.
\<close>

type_synonym byte = "8 word"

datatype wav_error =
  TooShort | NoRIFF | NoWAVE | FmtTooSmall | FmtTruncated
  | UnsupportedFormat "16 word" | UnsupportedBits int | NoFmt | NoData

record WAVHeader =
  SampleRate :: int
  NumChannels :: int
  BitsPerSample :: int

text \<open>
  The bytes of an ASCII tag, \<^verbatim>\<open>binary.Write\<close> of a 16 or 32-bit value in little-endian
  order, and \<^verbatim>\<open>binary.LittleEndian.Uint16\<close> and \<^verbatim>\<open>Uint32\<close>. The source applies the
  decoders to slices of exactly two and four bytes.
\<close>

definition ascii :: "string \<Rightarrow> byte list" where
  "ascii s = map of_char s"

definition le16 :: "16 word \<Rightarrow> byte list" where
  "le16 w = [ucast w, ucast (drop_bit 8 w)]"

definition le32 :: "32 word \<Rightarrow> byte list" where
  "le32 w = [ucast w, ucast (drop_bit 8 w), ucast (drop_bit 16 w), ucast (drop_bit 24 w)]"

definition u16 :: "byte list \<Rightarrow> 16 word" where
  "u16 b = ucast (b ! 0) OR push_bit 8 (ucast (b ! 1))"

definition u32 :: "byte list \<Rightarrow> 32 word" where
  "u32 b = ucast (b ! 0) OR push_bit 8 (ucast (b ! 1)) OR push_bit 16 (ucast (b ! 2))
             OR push_bit 24 (ucast (b ! 3))"

text \<open>
  The slice expression \<^verbatim>\<open>xs[a:b]\<close>; every use in \<^verbatim>\<open>ReadWAV\<close> is guarded so that
  \<open>a \<le> b \<le> len(xs)\<close>.
\<close>

definition slice_of :: "'a list \<Rightarrow> nat \<Rightarrow> nat \<Rightarrow> 'a list" where
  "slice_of xs a b = take (b - a) (drop a xs)"

text \<open>
  \<^verbatim>\<open>math.Round\<close> rounds half away from zero. \<open>sample_i16\<close> is the clamp and the
  conversion to \<^verbatim>\<open>int16\<close> of one sample in \<^verbatim>\<open>WriteWAV\<close>; after the clamp the rounded value
  fits 16 bits.
\<close>

definition go_round :: "real \<Rightarrow> int" where
  "go_round x = (if x \<ge> 0 then \<lfloor>x + 1 / 2\<rfloor> else - \<lfloor>- x + 1 / 2\<rfloor>)"

definition sample_i16 :: "real \<Rightarrow> 16 word" where
  "sample_i16 s0 =
     (let s = (if s0 > 1 then 1 else if s0 < - 1 then - 1 else s0)
      in if s \<ge> 0 then word_of_int (go_round (s * 32767))
         else word_of_int (go_round (s * 32768)))"

text \<open>
  \<^verbatim>\<open>WriteWAV\<close>. The conversions \<^verbatim>\<open>uint32(fileSize)\<close>, \<^verbatim>\<open>uint32(sampleRate)\<close>,
  \<^verbatim>\<open>uint32(sampleRate*2)\<close> and \<^verbatim>\<open>uint32(dataSize)\<close> keep the low 32 bits, which is
  \<^const>\<open>word_of_int\<close>.
\<close>

definition WriteWAV :: "real list \<Rightarrow> int \<Rightarrow> byte list" where
  "WriteWAV samples sampleRate =
     (let numSamples = int (length samples);
          dataSize = numSamples * 2;
          fileSize = 36 + dataSize
      in ascii ''RIFF'' @ le32 (word_of_int fileSize) @ ascii ''WAVE''
         @ ascii ''fmt '' @ le32 16 @ le16 1 @ le16 1
         @ le32 (word_of_int sampleRate) @ le32 (word_of_int (sampleRate * 2))
         @ le16 2 @ le16 16
         @ ascii ''data'' @ le32 (word_of_int dataSize)
         @ concat (map (\<lambda>s. le16 (sample_i16 s)) samples))"

text \<open>
  The chunk walk of \<^verbatim>\<open>ReadWAV\<close>: the loop \<^verbatim>\<open>for pos+8 <= len(data)\<close> with its state
  \<open>pos\<close>, \<open>header\<close> (a pointer, \<open>None\<close> for \<^verbatim>\<open>nil\<close>) and \<open>pcmData\<close> (\<open>None\<close> for the
  \<^verbatim>\<open>nil\<close> slice). Each round moves \<open>pos\<close> forward by at least 8.
\<close>

function chunks ::
  "byte list \<Rightarrow> nat \<Rightarrow> WAVHeader option \<Rightarrow> byte list option
     \<Rightarrow> wav_error + WAVHeader option \<times> byte list option" where
  "chunks data pos header pcmData =
     (if pos + 8 \<le> length data then
        let chunkID = slice_of data pos (pos + 4);
            chunkSize = unat (u32 (slice_of data (pos + 4) (pos + 8)));
            chunkStart = pos + 8;
            next = (if chunkSize mod 2 \<noteq> 0 then chunkStart + chunkSize + 1 else chunkStart + chunkSize)
        in if chunkID = ascii ''fmt '' then
             (if chunkSize < 16 then Inl FmtTooSmall
              else if chunkStart + 16 > length data then Inl FmtTruncated
              else
                let audioFormat = u16 (slice_of data chunkStart (chunkStart + 2)) in
                if audioFormat \<noteq> 1 then Inl (UnsupportedFormat audioFormat)
                else
                  let h = \<lparr>SampleRate = uint (u32 (slice_of data (chunkStart + 4) (chunkStart + 8))),
                           NumChannels = uint (u16 (slice_of data (chunkStart + 2) (chunkStart + 4))),
                           BitsPerSample = uint (u16 (slice_of data (chunkStart + 14) (chunkStart + 16)))\<rparr>
                  in if BitsPerSample h \<noteq> 16 then Inl (UnsupportedBits (BitsPerSample h))
                     else chunks data next (Some h) pcmData)
           else if chunkID = ascii ''data'' then
             (let end0 = chunkStart + chunkSize;
                  end1 = (if end0 > length data then length data else end0)
              in chunks data next header (Some (slice_of data chunkStart end1)))
           else chunks data next header pcmData
      else Inr (header, pcmData))"
  by pat_completeness auto
termination
  by (relation "measure (\<lambda>(data, pos, header, pcmData). length data - pos)") auto

declare chunks.simps [simp del]

text \<open>
  \<^verbatim>\<open>ReadWAV\<close>: the header checks, the chunk walk, the decoding of the samples as
  \<^verbatim>\<open>int16 / 32768.0\<close> and the stereo mix-down.
\<close>

definition ReadWAV :: "byte list \<Rightarrow> wav_error + real list \<times> int" where
  "ReadWAV data =
     (if length data < 12 then Inl TooShort
      else if slice_of data 0 4 \<noteq> ascii ''RIFF'' then Inl NoRIFF
      else if slice_of data 8 12 \<noteq> ascii ''WAVE'' then Inl NoWAVE
      else
        case chunks data 12 None None of
          Inl e \<Rightarrow> Inl e
        | Inr (header, pcmData) \<Rightarrow>
            (case header of
               None \<Rightarrow> Inl NoFmt
             | Some h \<Rightarrow>
                 (case pcmData of
                    None \<Rightarrow> Inl NoData
                  | Some pcm \<Rightarrow>
                      let numSamples = length pcm div 2;
                          rawSamples = map (\<lambda>i. real_of_int (sint (u16 (slice_of pcm (i * 2) (i * 2 + 2)))) / 32768)
                                         [0..<numSamples]
                      in if NumChannels h = 2 then
                           let monoLen = numSamples div 2 in
                           Inr (map (\<lambda>i. (rawSamples ! (i * 2) + rawSamples ! (i * 2 + 1)) / 2) [0..<monoLen],
                                SampleRate h)
                         else Inr (rawSamples, SampleRate h))))"

text \<open>
  The sample bytes that \<^verbatim>\<open>WriteWAV\<close> appends after the 44 header bytes.
\<close>

definition payload :: "real list \<Rightarrow> byte list" where
  "payload samples = concat (map (\<lambda>s. le16 (sample_i16 s)) samples)"

text \<open>
  The integer that \<^verbatim>\<open>WriteWAV\<close> stores for a sample already in \<open>[-1, 1]\<close>.
\<close>

definition quantised :: "real \<Rightarrow> int" where
  "quantised s = (if s \<ge> 0 then go_round (s * 32767) else go_round (s * 32768))"

section \<open>The functions on a store\<close>

text \<open>
  A second model of \<^verbatim>\<open>FFT\<close>, \<^verbatim>\<open>IFFT\<close> and \<^verbatim>\<open>Denoise\<close>, over an explicit store, for the
  claims about aliasing. The store maps an address to the backing array of a slice; a
  slice is the address of its array, or \<open>None\<close> for \<^verbatim>\<open>nil\<close> (every slice the three
  functions create or write covers its whole array, and they never append). \<^verbatim>\<open>make\<close>
  takes the next free address. Every element read and write of the source is a read or
  write of the store at the address the slice variable holds.
\<close>

record store =
  reals :: "nat \<Rightarrow> real list"
  cplxs :: "nat \<Rightarrow> complex list"
  fresh :: nat

definition set_r :: "store \<Rightarrow> nat \<Rightarrow> real list \<Rightarrow> store" where
  "set_r \<sigma> a ys = \<sigma>\<lparr>reals := (reals \<sigma>)(a := ys)\<rparr>"

definition set_c :: "store \<Rightarrow> nat \<Rightarrow> complex list \<Rightarrow> store" where
  "set_c \<sigma> a ys = \<sigma>\<lparr>cplxs := (cplxs \<sigma>)(a := ys)\<rparr>"

definition new_r :: "real list \<Rightarrow> store \<Rightarrow> nat \<times> store" where
  "new_r ys \<sigma> = (fresh \<sigma>, \<sigma>\<lparr>reals := (reals \<sigma>)(fresh \<sigma> := ys), fresh := Suc (fresh \<sigma>)\<rparr>)"

definition new_c :: "complex list \<Rightarrow> store \<Rightarrow> nat \<times> store" where
  "new_c ys \<sigma> = (fresh \<sigma>, \<sigma>\<lparr>cplxs := (cplxs \<sigma>)(fresh \<sigma> := ys), fresh := Suc (fresh \<sigma>)\<rparr>)"

definition contents_r :: "store \<Rightarrow> nat option \<Rightarrow> real list" where
  "contents_r \<sigma> x = (case x of None \<Rightarrow> [] | Some a \<Rightarrow> reals \<sigma> a)"

definition contents_c :: "store \<Rightarrow> nat option \<Rightarrow> complex list" where
  "contents_c \<sigma> x = (case x of None \<Rightarrow> [] | Some a \<Rightarrow> cplxs \<sigma> a)"

definition rd_r :: "store \<Rightarrow> nat \<Rightarrow> nat \<Rightarrow> error + real" where
  "rd_r \<sigma> a i = idx (reals \<sigma> a) i"

definition rd_c :: "store \<Rightarrow> nat \<Rightarrow> nat \<Rightarrow> error + complex" where
  "rd_c \<sigma> a i = idx (cplxs \<sigma> a) i"

definition wr_r :: "store \<Rightarrow> nat \<Rightarrow> nat \<Rightarrow> real \<Rightarrow> error + store" where
  "wr_r \<sigma> a i v = bindE (upd (reals \<sigma> a) i v) (\<lambda>ys. Inr (set_r \<sigma> a ys))"

definition wr_c :: "store \<Rightarrow> nat \<Rightarrow> nat \<Rightarrow> complex \<Rightarrow> error + store" where
  "wr_c \<sigma> a i v = bindE (upd (cplxs \<sigma> a) i v) (\<lambda>ys. Inr (set_c \<sigma> a ys))"

text \<open>\<^verbatim>\<open>bitReverse(x)\<close> on the array at address \<open>a\<close>.\<close>

definition swap_step_st :: "nat \<Rightarrow> nat \<Rightarrow> nat \<Rightarrow> store \<Rightarrow> error + store" where
  "swap_step_st bits a i \<sigma> =
     (let j = reverseBits i bits in
      if j > i then
        bindE (rd_c \<sigma> a j) (\<lambda>xj.
        bindE (rd_c \<sigma> a i) (\<lambda>xi.
        bindE (wr_c \<sigma> a i xj) (\<lambda>\<sigma>1.
        wr_c \<sigma>1 a j xi)))
      else Inr \<sigma>)"

definition bitReverse_st :: "nat \<Rightarrow> store \<Rightarrow> error + store" where
  "bitReverse_st a \<sigma> =
     (let n = length (cplxs \<sigma> a); bits = ilog2 n in foldE (swap_step_st bits a) [0..<n] \<sigma>)"

text \<open>The butterfly loops of \<^verbatim>\<open>FFT\<close> on the array \<open>out\<close>.\<close>

definition butterfly_st ::
  "nat \<Rightarrow> complex \<Rightarrow> nat \<Rightarrow> nat \<Rightarrow> nat \<Rightarrow> store \<times> complex \<Rightarrow> error + store \<times> complex" where
  "butterfly_st m wm out k j = (\<lambda>(\<sigma>, w).
     bindE (rd_c \<sigma> out (k + j + m div 2)) (\<lambda>a.
     let t = w * a in
     bindE (rd_c \<sigma> out (k + j)) (\<lambda>u.
     bindE (wr_c \<sigma> out (k + j) (u + t)) (\<lambda>\<sigma>1.
     bindE (wr_c \<sigma>1 out (k + j + m div 2) (u - t)) (\<lambda>\<sigma>2.
     Inr (\<sigma>2, w * wm))))))"

definition span_st :: "nat \<Rightarrow> complex \<Rightarrow> nat \<Rightarrow> nat \<Rightarrow> store \<Rightarrow> error + store" where
  "span_st m wm out k \<sigma> =
     bindE (foldE (butterfly_st m wm out k) [0..<m div 2] (\<sigma>, 1)) (\<lambda>(\<sigma>', w). Inr \<sigma>')"

function spans_st :: "nat \<Rightarrow> nat \<Rightarrow> complex \<Rightarrow> nat \<Rightarrow> nat \<Rightarrow> store \<Rightarrow> error + store" where
  "spans_st n s wm out k \<sigma> =
     (if k < n then
        (case span_st (2 ^ s) wm out k \<sigma> of
           Inl e \<Rightarrow> Inl e
         | Inr \<sigma>' \<Rightarrow> spans_st n s wm out (k + 2 ^ s) \<sigma>')
      else Inr \<sigma>)"
  by pat_completeness auto
termination
proof (relation "measure (\<lambda>(n, s, wm, out, k, \<sigma>). n - k)")
  show "wf (measure (\<lambda>(n, s, wm, out, k, \<sigma>). n - k))"
    by simp
next
  fix n s :: nat and wm :: complex and out k :: nat and \<sigma> \<sigma>' :: store
  assume "k < n"
  moreover have "(0::nat) < 2 ^ s"
    by simp
  ultimately have "n - (k + 2 ^ s) < n - k"
    by linarith
  then show "((n, s, wm, out, k + 2 ^ s, \<sigma>'), (n, s, wm, out, k, \<sigma>))
      \<in> measure (\<lambda>(n, s, wm, out, k, \<sigma>). n - k)"
    by simp
qed

declare spans_st.simps [simp del]

definition stage_st :: "nat \<Rightarrow> nat \<Rightarrow> nat \<Rightarrow> store \<Rightarrow> error + store" where
  "stage_st n out s \<sigma> =
     (let m = 2 ^ s; wm = exp (Complex 0 (- 2 * pi / real m)) in spans_st n s wm out 0 \<sigma>)"

text \<open>
  \<^verbatim>\<open>FFT\<close>: \<open>out\<close> is a new array, the input is copied into it, and every later write
  goes to \<open>out\<close>.
\<close>

definition FFT_st :: "nat option \<Rightarrow> store \<Rightarrow> error + nat option \<times> store" where
  "FFT_st x \<sigma> =
     (let n = length (contents_c \<sigma> x) in
      if n = 0 then Inr (None, \<sigma>)
      else if \<not> isPowerOf2 (int n) then Inl InvalidLength
      else
        let (out, \<sigma>1) = new_c (replicate n 0) \<sigma>;
            \<sigma>2 = set_c \<sigma>1 out (copy_slice (cplxs \<sigma>1 out) (contents_c \<sigma>1 x))
        in bindE (bitReverse_st out \<sigma>2) (\<lambda>\<sigma>3.
           bindE (foldE (stage_st n out) [1..<Suc (ilog2 n)] \<sigma>3) (\<lambda>\<sigma>4.
           Inr (Some out, \<sigma>4))))"

text \<open>
  \<^verbatim>\<open>IFFT\<close>: \<open>conj\<close> is a new array filled from \<open>X\<close>; the scaling loop writes the array
  that \<^verbatim>\<open>FFT\<close> returned.
\<close>

definition IFFT_st :: "nat option \<Rightarrow> store \<Rightarrow> error + nat option \<times> store" where
  "IFFT_st X \<sigma> =
     (let n = length (contents_c \<sigma> X) in
      if n = 0 then Inr (None, \<sigma>)
      else
        let (conj, \<sigma>1) = new_c (replicate n 0) \<sigma>;
            \<sigma>2 = set_c \<sigma>1 conj (map cnj (contents_c \<sigma>1 X))
        in bindE (FFT_st (Some conj) \<sigma>2) (\<lambda>(result, \<sigma>3).
           case result of
             None \<Rightarrow> Inr (None, \<sigma>3)
           | Some r \<Rightarrow> Inr (Some r, set_c \<sigma>3 r (map (\<lambda>v. cnj v / Complex (real n) 0) (cplxs \<sigma>3 r)))))"

text \<open>\<^verbatim>\<open>extractFrame\<close>: \<open>frame\<close> is a new array; \<open>src\<close> is only read.\<close>

definition extractFrame_st :: "nat \<Rightarrow> int \<Rightarrow> int \<Rightarrow> store \<Rightarrow> error + nat \<times> store" where
  "extractFrame_st src start sz \<sigma> =
     (if sz < 0 \<or> sz * 8 > maxAlloc then Inl MakeSliceLen
      else
        let (frame, \<sigma>1) = new_r (replicate (nat sz) 0) \<sigma>;
            end0 = start + sz;
            end1 = (if end0 > int (length (reals \<sigma>1 src)) then int (length (reals \<sigma>1 src)) else end0)
        in if start < 0 \<or> start > end1 then Inl OutOfRange
           else Inr (frame, set_r \<sigma>1 frame
                  (copy_slice (reals \<sigma>1 frame) (take (nat end1 - nat start) (drop (nat start) (reals \<sigma>1 src))))))"

text \<open>\<^verbatim>\<open>applyWindow\<close> writes \<open>frame\<close> and reads \<open>window\<close>.\<close>

definition applyWindow_st :: "nat \<Rightarrow> nat \<Rightarrow> store \<Rightarrow> error + store" where
  "applyWindow_st frame window \<sigma> =
     foldE (\<lambda>i \<sigma>.
        bindE (rd_r \<sigma> frame i) (\<lambda>v.
        bindE (rd_r \<sigma> window i) (\<lambda>w.
        wr_r \<sigma> frame i (v * w)))) [0..<length (reals \<sigma> frame)] \<sigma>"

text \<open>
  The windowed spectrum of a frame: \<open>frame\<close> from \<^verbatim>\<open>extractFrame\<close>, \<open>cx\<close> from
  \<^verbatim>\<open>realToComplex\<close> (a new array), \<open>spectrum\<close> from \<^verbatim>\<open>FFT\<close>.
\<close>

definition frame_spectrum_st :: "nat \<Rightarrow> nat \<Rightarrow> nat \<Rightarrow> store \<Rightarrow> error + nat option \<times> store" where
  "frame_spectrum_st samples window fi \<sigma> =
     (let start = fi * HopSize in
      bindE (extractFrame_st samples (int start) (int FrameSize) \<sigma>) (\<lambda>(frame, \<sigma>1).
      bindE (applyWindow_st frame window \<sigma>1) (\<lambda>\<sigma>2.
      let (cx, \<sigma>3) = new_c (realToComplex (reals \<sigma>2 frame)) \<sigma>2 in
      FFT_st (Some cx) \<sigma>3)))"

text \<open>
  A read of element \<open>k\<close> of the slice that \<^verbatim>\<open>FFT\<close> or \<^verbatim>\<open>IFFT\<close> returned, which is
  \<^verbatim>\<open>nil\<close> or an address.
\<close>

definition rd_result :: "store \<Rightarrow> nat option \<Rightarrow> nat \<Rightarrow> error + complex" where
  "rd_result \<sigma> x k = idx (contents_c \<sigma> x) k"

definition noise_frame_st :: "nat \<Rightarrow> nat \<Rightarrow> nat \<Rightarrow> nat \<Rightarrow> store \<Rightarrow> error + store" where
  "noise_frame_st samples window noiseMag fi \<sigma> =
     bindE (frame_spectrum_st samples window fi \<sigma>) (\<lambda>(spectrum, \<sigma>1).
     foldE (\<lambda>k \<sigma>.
        bindE (rd_result \<sigma> spectrum k) (\<lambda>z.
        bindE (rd_r \<sigma> noiseMag k) (\<lambda>v.
        wr_r \<sigma> noiseMag k (v + cmod z)))) [0..<FrameSize] \<sigma>1)"

text \<open>The subtraction writes the array \<open>spectrum\<close> that \<^verbatim>\<open>FFT\<close> returned.\<close>

definition subtract_bin_st :: "nat \<Rightarrow> nat option \<Rightarrow> nat \<Rightarrow> store \<Rightarrow> error + store" where
  "subtract_bin_st noiseMag spectrum k \<sigma> =
     bindE (rd_result \<sigma> spectrum k) (\<lambda>z.
     let mag = cmod z; phase = Phase z in
     bindE (rd_r \<sigma> noiseMag k) (\<lambda>nm.
     let cleanMag0 = mag - OverSubtract * nm;
         floorMag = SpectralFloor * mag;
         cleanMag = (if cleanMag0 < floorMag then floorMag else cleanMag0)
     in case spectrum of
          None \<Rightarrow> Inl OutOfRange
        | Some a \<Rightarrow> wr_c \<sigma> a k (Rect cleanMag phase)))"

definition overlap_add_st ::
  "nat \<Rightarrow> nat \<Rightarrow> nat option \<Rightarrow> nat \<Rightarrow> nat \<Rightarrow> nat \<Rightarrow> nat \<Rightarrow> store \<Rightarrow> error + store" where
  "overlap_add_st n start cleaned window output windowSum j \<sigma> =
     (let i = start + j in
      if i < n then
        bindE (rd_result \<sigma> cleaned j) (\<lambda>c.
        bindE (rd_r \<sigma> window j) (\<lambda>w.
        bindE (rd_r \<sigma> output i) (\<lambda>ov.
        bindE (wr_r \<sigma> output i (ov + Re c * w)) (\<lambda>\<sigma>1.
        bindE (rd_r \<sigma>1 window j) (\<lambda>w'.
        bindE (rd_r \<sigma>1 windowSum i) (\<lambda>sv.
        wr_r \<sigma>1 windowSum i (sv + w' * w')))))))
      else Inr \<sigma>)"

definition process_frame_st ::
  "nat \<Rightarrow> nat \<Rightarrow> nat \<Rightarrow> nat \<Rightarrow> nat \<Rightarrow> nat \<Rightarrow> nat \<Rightarrow> store \<Rightarrow> error + store" where
  "process_frame_st samples window noiseMag n output windowSum fi \<sigma> =
     (let start = fi * HopSize in
      bindE (frame_spectrum_st samples window fi \<sigma>) (\<lambda>(spectrum, \<sigma>1).
      bindE (foldE (subtract_bin_st noiseMag spectrum) [0..<FrameSize] \<sigma>1) (\<lambda>\<sigma>2.
      bindE (IFFT_st spectrum \<sigma>2) (\<lambda>(cleaned, \<sigma>3).
      foldE (overlap_add_st n start cleaned window output windowSum) [0..<FrameSize] \<sigma>3))))"

definition divide_step_st :: "nat \<Rightarrow> nat \<Rightarrow> nat \<Rightarrow> store \<Rightarrow> error + store" where
  "divide_step_st windowSum output i \<sigma> =
     bindE (rd_r \<sigma> windowSum i) (\<lambda>sv.
     if sv > 1 / 10 ^ 8 then bindE (rd_r \<sigma> output i) (\<lambda>ov. wr_r \<sigma> output i (ov / sv))
     else Inr \<sigma>)"

text \<open>
  \<^verbatim>\<open>Denoise\<close> from the computation of \<open>totalFrames\<close> on, for the array \<open>samples\<close> and
  the length \<open>n\<close> that the padding step leaves: the arrays \<open>window\<close>, \<open>noiseMag\<close>,
  \<open>output\<close> and \<open>windowSum\<close> are new, and \<^verbatim>\<open>normalize\<close> writes \<open>output\<close>.
\<close>

definition denoise_frames :: "nat \<Rightarrow> nat \<Rightarrow> store \<Rightarrow> error + nat option \<times> store" where
  "denoise_frames samples n \<sigma>1 =
     (let totalFrames0 = (n - FrameSize) div HopSize + 1;
          totalFrames = (if totalFrames0 < 1 then 1 else totalFrames0);
          noiseFrames = (if NoiseFrames > totalFrames then totalFrames else NoiseFrames);
          (window, \<sigma>2) = new_r (HannWindow (int FrameSize)) \<sigma>1;
          (noiseMag, \<sigma>3) = new_r (replicate FrameSize 0) \<sigma>2
      in
      bindE (foldE (noise_frame_st samples window noiseMag) [0..<noiseFrames] \<sigma>3) (\<lambda>\<sigma>4.
      let \<sigma>5 = set_r \<sigma>4 noiseMag (map (\<lambda>v. v / real noiseFrames) (reals \<sigma>4 noiseMag));
          (output, \<sigma>6) = new_r (replicate n 0) \<sigma>5;
          (windowSum, \<sigma>7) = new_r (replicate n 0) \<sigma>6
      in
      bindE (foldE (process_frame_st samples window noiseMag n output windowSum) [0..<totalFrames] \<sigma>7)
        (\<lambda>\<sigma>8.
      bindE (foldE (divide_step_st windowSum output) [0..<n] \<sigma>8) (\<lambda>\<sigma>9.
      Inr (Some output, set_r \<sigma>9 output (normalize (reals \<sigma>9 output) 0.95))))))"

text \<open>
  \<^verbatim>\<open>Denoise\<close> on a slice with the backing array \<open>samples0\<close>: a short input is copied
  into the new array \<open>padded\<close>, which then is \<open>samples\<close>; otherwise \<open>samples\<close> is the
  caller's array.
\<close>

definition denoise_at :: "nat \<Rightarrow> store \<Rightarrow> error + nat option \<times> store" where
  "denoise_at samples0 \<sigma> =
     (let n0 = length (reals \<sigma> samples0) in
      if n0 = 0 then Inr (None, \<sigma>)
      else if n0 < FrameSize then
        let (padded, \<sigma>a) = new_r (replicate FrameSize 0) \<sigma>;
            \<sigma>b = set_r \<sigma>a padded (copy_slice (reals \<sigma>a padded) (reals \<sigma>a samples0))
        in denoise_frames padded FrameSize \<sigma>b
      else denoise_frames samples0 n0 \<sigma>)"

text \<open>\<^verbatim>\<open>Denoise\<close>; a \<^verbatim>\<open>nil\<close> slice has length 0.\<close>

definition Denoise_st :: "nat option \<Rightarrow> int \<Rightarrow> store \<Rightarrow> error + nat option \<times> store" where
  "Denoise_st samples0 sampleRate \<sigma> =
     (case samples0 of None \<Rightarrow> Inr (None, \<sigma>) | Some a \<Rightarrow> denoise_at a \<sigma>)"

text \<open>
  \<open>keeps A \<sigma> \<sigma>'\<close>: every array of the store \<open>\<sigma>\<close> whose address is not in \<open>A\<close> has in
  \<open>\<sigma>'\<close> the contents it has in \<open>\<sigma>\<close>, and no address of \<open>\<sigma>\<close> is free in \<open>\<sigma>'\<close>.
\<close>

definition keeps :: "nat set \<Rightarrow> store \<Rightarrow> store \<Rightarrow> bool" where
  "keeps A \<sigma> \<sigma>' \<longleftrightarrow>
     fresh \<sigma> \<le> fresh \<sigma>' \<and>
     (\<forall>a<fresh \<sigma>. a \<notin> A \<longrightarrow> reals \<sigma>' a = reals \<sigma> a \<and> cplxs \<sigma>' a = cplxs \<sigma> a)"

text \<open>
  \<open>sim R m p\<close>: the run \<open>m\<close> on the store fails exactly as the run \<open>p\<close> of the pure
  model does, and when \<open>p\<close> returns \<open>y\<close> then \<open>m\<close> returns a result that \<open>R\<close> relates
  to \<open>y\<close>.
\<close>

definition sim :: "('a \<Rightarrow> 'b \<Rightarrow> bool) \<Rightarrow> error + 'b \<Rightarrow> error + 'a \<Rightarrow> bool" where
  "sim R m p = (case p of Inl e \<Rightarrow> m = Inl e | Inr y \<Rightarrow> (case m of Inl e \<Rightarrow> False | Inr b \<Rightarrow> R y b))"

text \<open>
  \<open>valid \<sigma> x\<close>: the slice \<open>x\<close> is \<^verbatim>\<open>nil\<close> or an array of the store. \<open>result_c \<sigma> ys\<close>
  and \<open>result_r \<sigma> ys\<close> describe the return of a function called in
  the store \<open>\<sigma>\<close>: a slice with the contents \<open>ys\<close>, \<^verbatim>\<open>nil\<close> or an array that did not
  exist in \<open>\<sigma>\<close>, and a store in which every array of \<open>\<sigma>\<close> has the contents it had.
\<close>

definition valid :: "store \<Rightarrow> nat option \<Rightarrow> bool" where
  "valid \<sigma> x = (case x of None \<Rightarrow> True | Some a \<Rightarrow> a < fresh \<sigma>)"

definition result_c :: "store \<Rightarrow> complex list \<Rightarrow> nat option \<times> store \<Rightarrow> bool" where
  "result_c \<sigma> ys = (\<lambda>(r, \<sigma>'). keeps {} \<sigma> \<sigma>' \<and> contents_c \<sigma>' r = ys \<and>
     (case r of None \<Rightarrow> True | Some a \<Rightarrow> fresh \<sigma> \<le> a \<and> a < fresh \<sigma>'))"

definition result_r :: "store \<Rightarrow> real list \<Rightarrow> nat option \<times> store \<Rightarrow> bool" where
  "result_r \<sigma> ys = (\<lambda>(r, \<sigma>'). keeps {} \<sigma> \<sigma>' \<and> contents_r \<sigma>' r = ys \<and>
     (case r of None \<Rightarrow> True | Some a \<Rightarrow> fresh \<sigma> \<le> a \<and> a < fresh \<sigma>'))"

text \<open>The two accumulators of the overlap-add, as arrays \<open>output\<close> and \<open>windowSum\<close>.\<close>

definition both :: "store \<Rightarrow> nat \<Rightarrow> nat \<Rightarrow> real list \<times> real list \<Rightarrow> store" where
  "both \<sigma> output windowSum = (\<lambda>(ov, wv). set_r (set_r \<sigma> output ov) windowSum wv)"

text \<open>
  \<^verbatim>\<open>Denoise\<close> from the computation of \<open>totalFrames\<close> on, as a function of the padded
  samples and their length \<open>n\<close>: the steps of \<^const>\<open>accumulate\<close> and \<^const>\<open>Denoise\<close>
  that follow the padding.
\<close>

definition denoised :: "real list \<Rightarrow> nat \<Rightarrow> error + real list" where
  "denoised samples n =
     (let totalFrames0 = (n - FrameSize) div HopSize + 1;
          totalFrames = (if totalFrames0 < 1 then 1 else totalFrames0);
          noiseFrames = (if NoiseFrames > totalFrames then totalFrames else NoiseFrames);
          window = HannWindow (int FrameSize)
      in
      bindE (foldE (noise_frame samples window) [0..<noiseFrames] (replicate FrameSize 0)) (\<lambda>noiseSum.
      let noiseMag = map (\<lambda>v. v / real noiseFrames) noiseSum in
      bindE (foldE (process_frame samples window noiseMag n) [0..<totalFrames]
               (replicate n 0, replicate n 0)) (\<lambda>(output0, windowSum).
      bindE (foldE (divide_step windowSum) [0..<n] output0) (\<lambda>output.
      Inr (normalize output 0.95)))))"

section \<open>The transform in binary64 arithmetic\<close>

text \<open>
  A third model of \<^verbatim>\<open>FFT\<close> and \<^verbatim>\<open>IFFT\<close>, in the binary64 arithmetic of \<^verbatim>\<open>float64\<close> and
  \<^verbatim>\<open>complex128\<close>, for the claim about the error of the round trip. A \<^verbatim>\<open>float64\<close> is a
  finite real number that the format holds, an infinity or NaN. The two zeros are one
  value: among the operations of \<^verbatim>\<open>FFT\<close> and \<^verbatim>\<open>IFFT\<close> the sign of a zero decides a result
  only in a division by zero, and their divisors are \<^verbatim>\<open>float64(m)\<close> with \<open>m \<ge> 2\<close> and
  \<^verbatim>\<open>float64(n)\<close> with \<open>n \<ge> 1\<close>.
\<close>

datatype f64 = Fin real | PInf | NInf | NaN

text \<open>
  Rounding to nearest, ties to even. \<open>expo x\<close> is the binary exponent of \<open>x\<close>, not below
  that of the subnormal numbers; the numbers of the format near \<open>x\<close> are the multiples of
  \<open>2 ^ (expo x - 52)\<close>, and a result of magnitude \<open>2 ^ 1024\<close> or more overflows to an
  infinity.
\<close>

definition expo :: "real \<Rightarrow> int" where
  "expo x = (if x = 0 then - 1022 else max (- 1022) \<lfloor>log 2 \<bar>x\<bar>\<rfloor>)"

definition rne :: "real \<Rightarrow> int" where
  "rne y =
     (let n = \<lfloor>y\<rfloor>; r = y - of_int n in
      if r < 1 / 2 then n else if 1 / 2 < r then n + 1 else if even n then n else n + 1)"

definition rnd :: "real \<Rightarrow> f64" where
  "rnd x =
     (let q = 2 powi (expo x - 52); y = of_int (rne (x / q)) * q in
      if 2 ^ 1024 \<le> \<bar>y\<bar> then (if 0 < x then PInf else NInf) else Fin y)"



























section \<open>Properties\<close>

subsection \<open>Frame extraction\<close>




subsection \<open>The sample rate\<close>

text \<open>
  Claim C9: the result of \<^verbatim>\<open>Denoise\<close> is the same for any two sample rates.
\<close>

theorem Denoise_sampleRate_unused: "Denoise samples r1 = Denoise samples r2"
  by (simp add: Denoise_def)

subsection \<open>The error monad and the checked accesses\<close>

lemma bindE_Inr [simp]: "bindE (Inr v) f = f v"
  by (simp add: bindE_def)

lemma bindE_Inl [simp]: "bindE (Inl e) f = Inl e"
  by (simp add: bindE_def)

lemma bindE_eq_Inr: "bindE r f = Inr y \<longleftrightarrow> (\<exists>v. r = Inr v \<and> f v = Inr y)"
  by (cases r) simp_all

lemma foldE_append: "foldE f (xs @ ys) s = bindE (foldE f xs s) (foldE f ys)"
proof (induction xs arbitrary: s)
  case Nil
  show ?case by simp
next
  case (Cons a xs)
  show ?case
    by (cases "f a s") (simp_all add: Cons.IH)
qed

lemma bindE_Inr_right [simp]: "bindE r Inr = r"
  by (cases r) simp_all

lemma foldE_Nil_fun [simp]: "foldE f [] = Inr"
  by (rule ext) simp

lemma foldE_single: "foldE f [i] s = f i s"
  by simp

lemma foldE_upt_Suc:
  "a \<le> b \<Longrightarrow> foldE f [a..<Suc b] s = bindE (foldE f [a..<b] s) (f b)"
  by (cases "foldE f [a..<b] s") (simp_all add: foldE_append)

lemma idx_Inr [simp]: "i < length xs \<Longrightarrow> idx xs i = Inr (xs ! i)"
  by (simp add: idx_def)

lemma upd_Inr [simp]: "i < length xs \<Longrightarrow> upd xs i v = Inr (xs[i := v])"
  by (simp add: upd_def)

subsection \<open>The butterfly loops\<close>

lemma length_span_upto [simp]: "length (span_upto h wm k J out) = length out"
  by (simp add: span_upto_def)

lemma span_upto_0: "span_upto h wm k 0 out = out"
  by (rule nth_equalityI) (auto simp: span_upto_def)

lemma butterfly_loop:
  assumes "k + 2 * h \<le> length out" and "J \<le> h"
  shows "foldE (butterfly (2 * h) wm k) [0..<J] (out, 1) = Inr (span_upto h wm k J out, wm ^ J)"
  using assms(2)
proof (induction J)
  case 0
  show ?case by (simp add: span_upto_0)
next
  case (Suc J)
  let ?o = "span_upto h wm k J out"
  have J: "J < h" using Suc.prems by simp
  have r1: "?o ! (k + J + h) = out ! (k + J + h)"
    using assms(1) J by (simp add: span_upto_def)
  have r2: "?o ! (k + J) = out ! (k + J)"
    using assms(1) J by (simp add: span_upto_def)
  have step: "butterfly (2 * h) wm k J (?o, wm ^ J) =
      Inr (?o[k + J := out ! (k + J) + wm ^ J * out ! (k + J + h),
              k + J + h := out ! (k + J) - wm ^ J * out ! (k + J + h)], wm ^ J * wm)"
    using assms(1) J by (simp add: butterfly_def Let_def r1 r2)
  have eq: "?o[k + J := out ! (k + J) + wm ^ J * out ! (k + J + h),
              k + J + h := out ! (k + J) - wm ^ J * out ! (k + J + h)] = span_upto h wm k (Suc J) out"
  proof (rule nth_equalityI)
    show "length (?o[k + J := out ! (k + J) + wm ^ J * out ! (k + J + h),
              k + J + h := out ! (k + J) - wm ^ J * out ! (k + J + h)]) = length (span_upto h wm k (Suc J) out)"
      by simp
  next
    fix p
    assume "p < length (?o[k + J := out ! (k + J) + wm ^ J * out ! (k + J + h),
              k + J + h := out ! (k + J) - wm ^ J * out ! (k + J + h)])"
    then have p: "p < length out" by simp
    consider "p = k + J" | "p = k + J + h" | "p \<noteq> k + J" "p \<noteq> k + J + h"
      by blast
    then show "?o[k + J := out ! (k + J) + wm ^ J * out ! (k + J + h),
              k + J + h := out ! (k + J) - wm ^ J * out ! (k + J + h)] ! p = span_upto h wm k (Suc J) out ! p"
    proof cases
      case 1
      then show ?thesis using p J by (simp add: span_upto_def)
    next
      case 2
      then show ?thesis using p J by (simp add: span_upto_def)
    next
      case 3
      then have "?o[k + J := out ! (k + J) + wm ^ J * out ! (k + J + h),
              k + J + h := out ! (k + J) - wm ^ J * out ! (k + J + h)] ! p = ?o ! p"
        by simp
      also have "\<dots> = span_upto h wm k (Suc J) out ! p"
        using 3 p J by (auto simp: span_upto_def less_Suc_eq)
      finally show ?thesis .
    qed
  qed
  have "foldE (butterfly (2 * h) wm k) [0..<Suc J] (out, 1) =
          bindE (foldE (butterfly (2 * h) wm k) [0..<J] (out, 1)) (butterfly (2 * h) wm k J)"
    by (rule foldE_upt_Suc) simp
  also have "\<dots> = butterfly (2 * h) wm k J (?o, wm ^ J)"
    using Suc.IH J by simp
  also have "\<dots> = Inr (span_upto h wm k (Suc J) out, wm ^ Suc J)"
    by (simp add: step eq)
  finally show ?case .
qed

lemma span_eq:
  assumes "k + 2 * h \<le> length out"
  shows "span (2 * h) wm k out = Inr (span_upto h wm k h out)"
  using butterfly_loop [OF assms, of h wm] by (simp add: span_def)

lemma length_stage_from [simp]: "length (stage_from h wm k out) = length out"
  by (simp add: stage_from_def)

lemma stage_from_end: "length out \<le> k \<Longrightarrow> stage_from h wm k out = out"
  by (rule nth_equalityI) (auto simp: stage_from_def)

lemma dvd_next_block:
  fixes m k n :: nat
  assumes "m dvd k" "m dvd n" "k < n"
  shows "k + m \<le> n"
proof -
  from assms obtain a b where ab: "k = m * a" "n = m * b"
    by (auto simp: dvd_def)
  with assms(3) have "a < b"
    by (metis mult_less_cancel1)
  then have "m * Suc a \<le> m * b"
    by (simp del: mult_Suc_right)
  with ab show ?thesis
    by simp
qed

lemma mod_shift_block:
  fixes m k p :: nat
  assumes "m dvd k" "k \<le> p"
  shows "p mod m = (p - k) mod m"
proof -
  from assms obtain a where "k = m * a"
    by (auto simp: dvd_def)
  with assms(2) have "p = (p - k) + m * a"
    by simp
  then have "p mod m = ((p - k) + m * a) mod m"
    by simp
  then show ?thesis
    by simp
qed

lemma upper_half_in_block:
  fixes h n p :: nat
  assumes "2 * h dvd n" "p < n" "p mod (2 * h) < h"
  shows "p + h < n"
proof -
  have "2 * h dvd (p - p mod (2 * h))"
    by (simp add: dvd_minus_mod)
  moreover have "p - p mod (2 * h) < n"
    using assms(2) by simp
  ultimately have "p - p mod (2 * h) + 2 * h \<le> n"
    using assms(1) dvd_next_block [of "2 * h" "p - p mod (2 * h)" n] by blast
  moreover have "p mod (2 * h) \<le> p"
    by simp
  ultimately show ?thesis
    using assms(3) by linarith
qed

lemma stage_from_step:
  assumes dk: "2 * h dvd k" and dn: "2 * h dvd length out" and kn: "k < length out"
  shows "stage_from h wm (k + 2 * h) (span_upto h wm k h out) = stage_from h wm k out"
proof (rule nth_equalityI)
  show "length (stage_from h wm (k + 2 * h) (span_upto h wm k h out)) = length (stage_from h wm k out)"
    by simp
next
  fix p
  assume "p < length (stage_from h wm (k + 2 * h) (span_upto h wm k h out))"
  then have p: "p < length out"
    by simp
  let ?o = "span_upto h wm k h out"
  have h0: "0 < h"
    using dn kn by (cases "h = 0") auto
  consider "p < k" | "k \<le> p" "p < k + h" | "k + h \<le> p" "p < k + 2 * h" | "k + 2 * h \<le> p"
    by linarith
  then show "stage_from h wm (k + 2 * h) ?o ! p = stage_from h wm k out ! p"
  proof cases
    case 1
    then show ?thesis
      using p by (simp add: stage_from_def span_upto_def)
  next
    case 2
    then have "p mod (2 * h) = p - k"
      using mod_shift_block [OF dk, of p] by simp
    moreover have "p - k < h"
      using 2 by linarith
    ultimately show ?thesis
      using 2 p by (simp add: stage_from_def span_upto_def)
  next
    case 3
    then have "p mod (2 * h) = p - k"
      using mod_shift_block [OF dk, of p] by simp
    moreover have "\<not> p - k < h" "\<not> p < k" "\<not> p < k + h" "p - h - k = p - k - h"
      using 3 by linarith+
    ultimately show ?thesis
      using 3 p by (simp add: stage_from_def span_upto_def)
  next
    case 4
    have dk': "2 * h dvd k + 2 * h"
      using dk by simp
    show ?thesis
    proof (cases "p mod (2 * h) < h")
      case True
      then have "p + h < length out"
        using upper_half_in_block [OF dn p] by simp
      then show ?thesis
        using 4 p True by (simp add: stage_from_def span_upto_def)
    next
      case False
      have "p mod (2 * h) = (p - (k + 2 * h)) mod (2 * h)"
        using mod_shift_block [OF dk' 4] .
      also have "\<dots> \<le> p - (k + 2 * h)"
        by simp
      finally have "k + 2 * h + h \<le> p"
        using False 4 by linarith
      then have "\<not> p - h < k + h + h" "\<not> p - h < k + h" "p - h < length out"
        using p by linarith+
      then show ?thesis
        using 4 p False by (simp add: stage_from_def span_upto_def)
    qed
  qed
qed

lemma spans_eq:
  assumes "2 * h = 2 ^ s" and "2 * h dvd k" and "2 * h dvd n" and "length out = n"
  shows "spans n s wm k out = Inr (stage_from h wm k out)"
  using assms
proof (induction n s wm k out rule: spans.induct)
  case (1 n s wm k out)
  show ?case
  proof (cases "k < n")
    case False
    then show ?thesis
      using "1.prems" by (simp add: spans.simps [of n s wm k out] stage_from_end)
  next
    case True
    have fit: "k + 2 * h \<le> length out"
      using dvd_next_block [of "2 * h" k n] "1.prems" True by simp
    have sp: "span (2 ^ s) wm k out = Inr (span_upto h wm k h out)"
      using span_eq [OF fit, of wm] "1.prems"(1) by simp
    have "spans n s wm (k + 2 ^ s) (span_upto h wm k h out) =
            Inr (stage_from h wm (k + 2 ^ s) (span_upto h wm k h out))"
      using "1.prems" by (intro "1.IH" [OF True sp]) simp_all
    moreover have "stage_from h wm (k + 2 ^ s) (span_upto h wm k h out) = stage_from h wm k out"
      using stage_from_step [of h k out wm] "1.prems" True by simp
    ultimately show ?thesis
      using True sp by (simp add: spans.simps [of n s wm k out])
  qed
qed

subsection \<open>Bit reversal\<close>

lemma reverse_round: "push_bit 1 r OR (v AND 1) = 2 * r + v mod 2" for r v :: nat
proof (cases "even v")
  case True
  then show ?thesis
    by (simp add: and_one_eq push_bit_eq_mult)
next
  case False
  then have "v AND 1 = 1" "v mod 2 = 1"
    by (simp_all add: and_one_eq odd_iff_mod_2_eq_one)
  moreover have "2 * r OR 1 = 2 * r + 1"
    using or_one_eq [of "2 * r"] by simp
  ultimately show ?thesis
    by (simp only: push_bit_eq_mult power_one_right mult.commute [of r 2])
qed

lemma reverseBits_loop_Suc:
  "reverseBits_loop (Suc c) r v = reverseBits_loop c (2 * r + v mod 2) (v div 2)"
proof -
  have "drop_bit 1 v = v div 2"
    by (simp add: drop_bit_eq_div)
  then show ?thesis
    by (simp only: reverseBits_loop.simps reverse_round)
qed

lemma reverseBits_loop_acc:
  "reverseBits_loop c r v = r * 2 ^ c + reverseBits_loop c 0 v"
proof (induction c arbitrary: r v)
  case 0
  show ?case by simp
next
  case (Suc c)
  have "reverseBits_loop (Suc c) r v = (2 * r + v mod 2) * 2 ^ c + reverseBits_loop c 0 (v div 2)"
    by (simp only: reverseBits_loop_Suc Suc.IH [of "2 * r + v mod 2"])
  moreover have "reverseBits_loop (Suc c) 0 v = (v mod 2) * 2 ^ c + reverseBits_loop c 0 (v div 2)"
    by (simp only: reverseBits_loop_Suc Suc.IH [of "2 * 0 + v mod 2"]) simp
  ultimately show ?case
    by (simp add: algebra_simps)
qed

lemma reverseBits_0 [simp]: "reverseBits v 0 = 0"
  by (simp add: reverseBits_def)

lemma reverseBits_Suc:
  "reverseBits v (Suc q) = (v mod 2) * 2 ^ q + reverseBits (v div 2) q"
proof -
  have "reverseBits v (Suc q) = reverseBits_loop q (v mod 2) (v div 2)"
    by (simp add: reverseBits_def reverseBits_loop_Suc del: reverseBits_loop.simps)
  then show ?thesis
    using reverseBits_loop_acc [of q "v mod 2" "v div 2"] by (simp add: reverseBits_def)
qed

lemma reverseBits_less: "reverseBits v q < 2 ^ q"
proof (induction q arbitrary: v)
  case 0
  show ?case by simp
next
  case (Suc q)
  have "v mod 2 \<le> 1"
    by simp
  then have "(v mod 2) * 2 ^ q \<le> 1 * 2 ^ q"
    by (rule mult_le_mono1)
  moreover have "reverseBits (v div 2) q < 2 ^ q"
    by (rule Suc)
  ultimately have "(v mod 2) * 2 ^ q + reverseBits (v div 2) q < 2 * 2 ^ q"
    by linarith
  then show ?case
    by (simp add: reverseBits_Suc)
qed

lemma reverseBits_Suc_high:
  "reverseBits v (Suc q) = 2 * reverseBits (v mod 2 ^ q) q + (v div 2 ^ q) mod 2"
proof (induction q arbitrary: v)
  case 0
  show ?case by (simp add: reverseBits_Suc)
next
  case (Suc q)
  have a: "(v mod 2 ^ Suc q) mod 2 = v mod 2"
    by (simp add: mod_mod_cancel)
  have b: "(v mod 2 ^ Suc q) div 2 = (v div 2) mod 2 ^ q"
    using drop_bit_take_bit [of 1 "Suc q" v] by (simp add: take_bit_eq_mod drop_bit_eq_div)
  have c: "(v div 2) div 2 ^ q = v div 2 ^ Suc q"
    by (simp add: div_mult2_eq)
  have "reverseBits v (Suc (Suc q)) = (v mod 2) * 2 ^ Suc q + reverseBits (v div 2) (Suc q)"
    by (rule reverseBits_Suc)
  also have "reverseBits (v div 2) (Suc q) =
      2 * reverseBits ((v div 2) mod 2 ^ q) q + ((v div 2) div 2 ^ q) mod 2"
    by (rule Suc.IH)
  finally have lhs: "reverseBits v (Suc (Suc q)) =
      (v mod 2) * 2 ^ Suc q + 2 * reverseBits ((v div 2) mod 2 ^ q) q + (v div 2 ^ Suc q) mod 2"
    by (simp add: c)
  have "reverseBits (v mod 2 ^ Suc q) (Suc q) =
      ((v mod 2 ^ Suc q) mod 2) * 2 ^ q + reverseBits ((v mod 2 ^ Suc q) div 2) q"
    by (rule reverseBits_Suc)
  then have "reverseBits (v mod 2 ^ Suc q) (Suc q) =
      (v mod 2) * 2 ^ q + reverseBits ((v div 2) mod 2 ^ q) q"
    by (simp only: a b)
  with lhs show ?case
    by simp
qed

lemma reverseBits_involution: "v < 2 ^ q \<Longrightarrow> reverseBits (reverseBits v q) q = v"
proof (induction q arbitrary: v)
  case 0
  then show ?case by simp
next
  case (Suc q)
  define w where "w = reverseBits v (Suc q)"
  have w: "w = (v mod 2) * 2 ^ q + reverseBits (v div 2) q"
    by (simp add: w_def reverseBits_Suc)
  have lt: "reverseBits (v div 2) q < 2 ^ q"
    by (rule reverseBits_less)
  have wm: "w mod 2 ^ q = reverseBits (v div 2) q"
    using lt by (simp add: w)
  have wd: "w div 2 ^ q = v mod 2"
    using lt by (simp add: w)
  have v2: "v div 2 < 2 ^ q"
    using Suc.prems by simp
  have "reverseBits w (Suc q) = 2 * reverseBits (w mod 2 ^ q) q + (w div 2 ^ q) mod 2"
    by (rule reverseBits_Suc_high)
  also have "\<dots> = 2 * (v div 2) + v mod 2"
    by (simp add: wm wd Suc.IH [OF v2])
  finally show ?case
    by (simp add: w_def)
qed

lemma ilog2_power [simp]: "ilog2 (2 ^ L) = L"
proof (induction L)
  case 0
  show ?case by (simp add: ilog2.simps)
next
  case (Suc L)
  have "\<not> (2::nat) * 2 ^ L < 2"
    by (simp add: not_less)
  then have "ilog2 (2 * 2 ^ L) = Suc (ilog2 (2 * 2 ^ L div 2))"
    by (subst ilog2.simps) simp
  then show ?case
    using Suc by simp
qed

lemma swap_loop:
  assumes len: "length x = 2 ^ L" and "I \<le> length x"
  shows "foldE (swap_step L) [0..<I] x = Inr (swapped_upto L I x)"
  using assms(2)
proof (induction I)
  case 0
  have "swapped_upto L 0 x = x"
    by (rule nth_equalityI) (auto simp: swapped_upto_def)
  then show ?case
    by simp
next
  case (Suc I)
  let ?c = "swapped_upto L I x"
  let ?j = "reverseBits I L"
  have I: "I < length x"
    using Suc.prems by simp
  have j: "?j < length x"
    using reverseBits_less [of I L] len by simp
  have rj: "reverseBits ?j L = I"
    using I len by (simp add: reverseBits_involution)
  have inj: "reverseBits p L = I \<longleftrightarrow> p = ?j" if "p < length x" for p
    using that len rj reverseBits_involution [of p L] by auto
  have lc: "length ?c = length x"
    by (simp add: swapped_upto_def)
  have step: "swap_step L I ?c = Inr (swapped_upto L (Suc I) x)"
  proof (cases "?j > I")
    case True
    have cI: "?c ! I = x ! I"
      using I True by (simp add: swapped_upto_def)
    have cj: "?c ! ?j = x ! ?j"
      using j True rj by (simp add: swapped_upto_def)
    have "swap_step L I ?c = Inr (?c[I := x ! ?j, ?j := x ! I])"
      using True I j by (simp add: swap_step_def Let_def lc cI cj)
    moreover have "?c[I := x ! ?j, ?j := x ! I] = swapped_upto L (Suc I) x"
    proof (rule nth_equalityI)
      show "length (?c[I := x ! ?j, ?j := x ! I]) = length (swapped_upto L (Suc I) x)"
        by (simp add: swapped_upto_def)
    next
      fix p
      assume "p < length (?c[I := x ! ?j, ?j := x ! I])"
      then have p: "p < length x"
        by (simp add: lc)
      consider "p = I" | "p = ?j" | "p \<noteq> I" "p \<noteq> ?j"
        by blast
      then show "?c[I := x ! ?j, ?j := x ! I] ! p = swapped_upto L (Suc I) x ! p"
      proof cases
        case 1
        then show ?thesis
          using True I by (simp add: lc swapped_upto_def)
      next
        case 2
        then show ?thesis
          using True j rj by (simp add: lc swapped_upto_def)
      next
        case 3
        then have "reverseBits p L \<noteq> I"
          using inj [OF p] by simp
        then show ?thesis
          using 3 p by (auto simp: lc swapped_upto_def less_Suc_eq)
      qed
    qed
    ultimately show ?thesis
      by simp
  next
    case False
    have "?c = swapped_upto L (Suc I) x"
    proof (rule nth_equalityI)
      show "length ?c = length (swapped_upto L (Suc I) x)"
        by (simp add: swapped_upto_def)
    next
      fix p
      assume "p < length ?c"
      then have p: "p < length x"
        by (simp add: lc)
      show "?c ! p = swapped_upto L (Suc I) x ! p"
      proof (cases "p = I")
        case True
        then show ?thesis
          using False I by (auto simp: swapped_upto_def less_Suc_eq not_less le_less)
      next
        case pI: False
        show ?thesis
        proof (cases "reverseBits p L = I")
          case True
          then have "p = ?j"
            using inj [OF p] by simp
          with False pI have "p < I"
            by simp
          then show ?thesis
            using p by (simp add: swapped_upto_def)
        next
          case False
          then show ?thesis
            using pI p by (auto simp: swapped_upto_def less_Suc_eq)
        qed
      qed
    qed
    then show ?thesis
      using False by (simp add: swap_step_def Let_def)
  qed
  have "foldE (swap_step L) [0..<Suc I] x = bindE (foldE (swap_step L) [0..<I] x) (swap_step L I)"
    by (rule foldE_upt_Suc) simp
  then show ?case
    using Suc.IH I step by simp
qed

lemma bitReverse_eq:
  assumes "length x = 2 ^ L"
  shows "bitReverse x = Inr (map (\<lambda>p. x ! reverseBits p L) [0..<length x])"
proof -
  have "swapped_upto L (length x) x = map (\<lambda>p. x ! reverseBits p L) [0..<length x]"
    by (rule nth_equalityI) (auto simp: swapped_upto_def)
  then show ?thesis
    using swap_loop [OF assms, of "length x"] assms by (simp add: bitReverse_def Let_def)
qed

subsection \<open>Twiddle factors and the splitting of a transform\<close>

lemma exp_twiddle: "exp (Complex 0 (- 2 * pi / real m)) = twiddle m"
  by (simp add: twiddle_def cis_conv_exp Complex_eq mult.commute)

lemma twiddle_power: "twiddle m ^ k = cis (- 2 * pi * real k / real m)"
  by (simp add: twiddle_def DeMoivre mult_ac)

lemma twiddle_full: "0 < m \<Longrightarrow> twiddle m ^ m = 1"
  by (simp add: twiddle_power complex_eq_iff)

lemma twiddle_half: "0 < h \<Longrightarrow> twiddle (2 * h) ^ h = - 1"
  by (simp add: twiddle_power complex_eq_iff)

lemma twiddle_square: "0 < h \<Longrightarrow> twiddle (2 * h) ^ 2 = twiddle h"
  by (simp add: twiddle_power) (simp add: twiddle_def)

lemma twiddle_even: "0 < h \<Longrightarrow> twiddle (2 * h) ^ (j * (2 * t)) = twiddle h ^ (j * t)"
proof -
  assume "0 < h"
  have "twiddle (2 * h) ^ (j * (2 * t)) = (twiddle (2 * h) ^ 2) ^ (j * t)"
    by (simp add: power_mult [symmetric] mult_ac)
  then show ?thesis
    using \<open>0 < h\<close> by (simp add: twiddle_square)
qed

lemma twiddle_odd:
  "0 < h \<Longrightarrow> twiddle (2 * h) ^ (j * (2 * t + 1)) = twiddle (2 * h) ^ j * twiddle h ^ (j * t)"
proof -
  assume "0 < h"
  have "twiddle (2 * h) ^ (j * (2 * t + 1)) = twiddle (2 * h) ^ (j * (2 * t)) * twiddle (2 * h) ^ j"
    by (simp add: power_add [symmetric] algebra_simps)
  then show ?thesis
    using \<open>0 < h\<close> by (simp add: twiddle_even)
qed

lemma twiddle_shift: "0 < h \<Longrightarrow> twiddle h ^ ((j + h) * t) = twiddle h ^ (j * t)"
proof -
  assume "0 < h"
  have "twiddle h ^ ((j + h) * t) = twiddle h ^ (j * t) * (twiddle h ^ h) ^ t"
    by (simp add: power_add power_mult [symmetric] algebra_simps)
  then show ?thesis
    using \<open>0 < h\<close> by (simp add: twiddle_full)
qed

lemma sum_even_odd:
  fixes f :: "nat \<Rightarrow> complex"
  shows "(\<Sum>u<2 * h. f u) = (\<Sum>t<h. f (2 * t)) + (\<Sum>t<h. f (2 * t + 1))"
proof (induction h)
  case 0
  show ?case by simp
next
  case (Suc h)
  have "(\<Sum>u<2 * Suc h. f u) = (\<Sum>u<2 * h. f u) + f (2 * h) + f (2 * h + 1)"
    by simp
  with Suc show ?case
    by simp
qed

lemma danielson_lanczos:
  assumes "0 < h"
  shows "(\<Sum>u<2 * h. g u * twiddle (2 * h) ^ (j * u)) =
         (\<Sum>t<h. g (2 * t) * twiddle h ^ (j * t)) +
         twiddle (2 * h) ^ j * (\<Sum>t<h. g (2 * t + 1) * twiddle h ^ (j * t))"
proof -
  have "(\<Sum>u<2 * h. g u * twiddle (2 * h) ^ (j * u)) =
        (\<Sum>t<h. g (2 * t) * twiddle (2 * h) ^ (j * (2 * t))) +
        (\<Sum>t<h. g (2 * t + 1) * twiddle (2 * h) ^ (j * (2 * t + 1)))"
    by (rule sum_even_odd)
  also have "(\<Sum>t<h. g (2 * t) * twiddle (2 * h) ^ (j * (2 * t))) =
             (\<Sum>t<h. g (2 * t) * twiddle h ^ (j * t))"
    using assms by (simp only: twiddle_even)
  also have "(\<Sum>t<h. g (2 * t + 1) * twiddle (2 * h) ^ (j * (2 * t + 1))) =
             (\<Sum>t<h. twiddle (2 * h) ^ j * (g (2 * t + 1) * twiddle h ^ (j * t)))"
    using assms by (simp only: twiddle_odd) (simp add: mult_ac)
  also have "\<dots> = twiddle (2 * h) ^ j * (\<Sum>t<h. g (2 * t + 1) * twiddle h ^ (j * t))"
    by (simp only: sum_distrib_left)
  finally show ?thesis .
qed

subsection \<open>The stages compute the discrete Fourier transform\<close>

lemma reverseBits_double: "reverseBits (2 * b) (Suc q) = reverseBits b q"
  by (simp add: reverseBits_Suc)

lemma reverseBits_double_Suc: "reverseBits (2 * b + 1) (Suc q) = 2 ^ q + reverseBits b q"
  by (simp add: reverseBits_Suc)

lemma stage_inv_step:
  assumes inv: "stage_inv x L s out" and sL: "s < L"
  shows "stage_inv x L (Suc s) (stage_from (2 ^ s) (twiddle (2 ^ Suc s)) 0 out)"
proof -
  define h :: nat where "h = 2 ^ s"
  define q where "q = L - Suc s"
  define wm where "wm = twiddle (2 * h)"
  have h0: "0 < h"
    by (simp add: h_def)
  have Ls: "L - s = Suc q"
    using sL by (simp add: q_def)
  have len: "length out = 2 ^ L"
    using inv by (simp add: stage_inv_def)
  have n: "(2::nat) ^ L = 2 ^ q * (2 * h)"
  proof -
    have "L = q + Suc s"
      using sL by (simp add: q_def)
    then show ?thesis
      by (simp add: h_def power_add)
  qed
  have old: "out ! (b * h + j) =
      (\<Sum>t<h. x ! (t * 2 ^ Suc q + reverseBits b (Suc q)) * twiddle h ^ (j * t))"
    if "b < 2 ^ Suc q" "j < h" for b j
    using inv that by (simp add: stage_inv_def Ls h_def)
  have "stage_from h wm 0 out ! (b * (2 * h) + j) =
      (\<Sum>u<2 * h. x ! (u * 2 ^ q + reverseBits b q) * wm ^ (j * u))"
    if b: "b < 2 ^ q" and j: "j < 2 * h" for b j
  proof -
    define G where "G u = x ! (u * 2 ^ q + reverseBits b q)" for u
    let ?p = "b * (2 * h) + j"
    have "Suc b * (2 * h) \<le> 2 ^ q * (2 * h)"
      using b by (intro mult_le_mono1) simp
    then have p: "?p < length out"
      using j by (simp add: len n)
    have pm: "?p mod (2 * h) = j"
      using j by simp
    have b0: "2 * b < 2 ^ Suc q" and b1: "2 * b + 1 < 2 ^ Suc q"
      using b by simp_all
    have G0: "x ! (t * 2 ^ Suc q + reverseBits b q) = G (2 * t)" for t
      by (simp add: G_def mult_ac)
    have G1: "x ! (t * 2 ^ Suc q + (2 ^ q + reverseBits b q)) = G (2 * t + 1)" for t
      by (simp add: G_def algebra_simps)
    have lo: "out ! (2 * b * h + i) = (\<Sum>t<h. G (2 * t) * twiddle h ^ (i * t))" if "i < h" for i
      using old [OF b0 that] by (simp only: reverseBits_double G0)
    have hi: "out ! ((2 * b + 1) * h + i) = (\<Sum>t<h. G (2 * t + 1) * twiddle h ^ (i * t))"
      if "i < h" for i
      using old [OF b1 that] by (simp only: reverseBits_double_Suc G1)
    have dl: "(\<Sum>u<2 * h. G u * wm ^ (i * u)) =
         (\<Sum>t<h. G (2 * t) * twiddle h ^ (i * t)) +
         wm ^ i * (\<Sum>t<h. G (2 * t + 1) * twiddle h ^ (i * t))" for i
      unfolding wm_def by (rule danielson_lanczos [OF h0])
    have goal: "(\<Sum>u<2 * h. x ! (u * 2 ^ q + reverseBits b q) * wm ^ (j * u)) =
        (\<Sum>u<2 * h. G u * wm ^ (j * u))"
      by (simp only: G_def)
    show ?thesis
    proof (cases "j < h")
      case True
      have e1: "b * (2 * h) + j = 2 * b * h + j"
        by simp
      have e2: "b * (2 * h) + j + h = (2 * b + 1) * h + j"
        by (simp add: algebra_simps)
      have "stage_from h wm 0 out ! ?p = out ! ?p + wm ^ j * out ! (?p + h)"
        using p True by (simp add: stage_from_def pm del: mod_mult_self3)
      moreover have "out ! ?p = (\<Sum>t<h. G (2 * t) * twiddle h ^ (j * t))"
        using lo [OF True] by (simp only: e1)
      moreover have "out ! (?p + h) = (\<Sum>t<h. G (2 * t + 1) * twiddle h ^ (j * t))"
        using hi [OF True] by (simp only: e2)
      ultimately show ?thesis
        by (simp only: goal dl)
    next
      case False
      define i where "i = j - h"
      have i: "i < h" and ji: "j = i + h"
        using False j by (simp_all add: i_def)
      have e1: "b * (2 * h) + j - h = 2 * b * h + i"
        by (simp add: ji)
      have e2: "b * (2 * h) + j = (2 * b + 1) * h + i"
        by (simp add: ji algebra_simps)
      have "stage_from h wm 0 out ! ?p = out ! (?p - h) - wm ^ (j - h) * out ! ?p"
        using p False by (simp add: stage_from_def pm del: mod_mult_self3)
      moreover have "out ! (?p - h) = (\<Sum>t<h. G (2 * t) * twiddle h ^ (i * t))"
        using lo [OF i] by (simp only: e1)
      moreover have "out ! ?p = (\<Sum>t<h. G (2 * t + 1) * twiddle h ^ (i * t))"
        using hi [OF i] by (simp only: e2)
      ultimately have new: "stage_from h wm 0 out ! ?p =
          (\<Sum>t<h. G (2 * t) * twiddle h ^ (i * t)) -
          wm ^ i * (\<Sum>t<h. G (2 * t + 1) * twiddle h ^ (i * t))"
        by (simp only: i_def)
      have "wm ^ j = - (wm ^ i)"
        using twiddle_half [OF h0] by (simp add: ji power_add wm_def)
      moreover have "twiddle h ^ (j * t) = twiddle h ^ (i * t)" for t
        using twiddle_shift [OF h0, of i t] by (simp add: ji)
      ultimately have "(\<Sum>u<2 * h. G u * wm ^ (j * u)) =
          (\<Sum>t<h. G (2 * t) * twiddle h ^ (i * t)) -
          wm ^ i * (\<Sum>t<h. G (2 * t + 1) * twiddle h ^ (i * t))"
        by (simp only: dl) simp
      with new show ?thesis
        by (simp only: goal)
    qed
  qed
  moreover have "L - Suc s = q" "(2::nat) ^ Suc s = 2 * h"
    by (simp_all add: q_def h_def)
  ultimately show ?thesis
    using len by (simp add: stage_inv_def wm_def h_def)
qed

lemma isPowerOf2_power: "isPowerOf2 (2 ^ k)"
proof -
  have "\<not> bit (mask k :: int) k"
    by (simp add: bit_mask_iff)
  then have "(mask k :: int) AND 2 ^ k = 0"
    by (simp add: and_exp_eq_0_iff_not_bit)
  then have "(2::int) ^ k AND (2 ^ k - 1) = 0"
    by (simp add: mask_eq_exp_minus_1 and.commute)
  then show ?thesis
    by (simp add: isPowerOf2_def)
qed

lemma isPowerOf2_imp_power:
  assumes "isPowerOf2 n"
  shows "\<exists>k. n = 2 ^ k"
proof -
  have "0 < n \<Longrightarrow> n AND (n - 1) = 0 \<Longrightarrow> \<exists>k. n = 2 ^ k" for n :: int
  proof (induction "nat n" arbitrary: n rule: less_induct)
    case less
    show ?case
    proof (cases "even n")
      case True
      then obtain q where q: "n = 2 * q"
        by (auto elim: evenE)
      with less.prems have q0: "0 < q"
        by simp
      have "(2 * q - 1) div 2 = q - 1"
        by linarith
      then have "n AND (n - 1) = 2 * (q AND (q - 1))"
        by (subst and_int_rec) (simp add: q)
      with less.prems have "q AND (q - 1) = 0"
        by simp
      moreover have "nat q < nat n"
        using q q0 by simp
      ultimately obtain k where "q = 2 ^ k"
        using less.hyps [of q] q0 by blast
      then have "n = 2 ^ Suc k"
        by (simp add: q)
      then show ?thesis ..
    next
      case False
      then obtain q where q: "n = 2 * q + 1"
        by (auto elim: oddE)
      have "n AND (n - 1) = 2 * (q AND q)"
        by (subst and_int_rec) (simp add: q)
      with less.prems have "q = 0"
        by simp
      then have "n = 2 ^ 0"
        by (simp add: q)
      then show ?thesis ..
    qed
  qed
  with assms show ?thesis
    by (simp add: isPowerOf2_def)
qed

lemma isPowerOf2_iff: "isPowerOf2 n \<longleftrightarrow> (\<exists>k. n = 2 ^ k)"
  using isPowerOf2_power isPowerOf2_imp_power by blast

lemma isPowerOf2_nat_iff: "isPowerOf2 (int n) \<longleftrightarrow> (\<exists>k. n = 2 ^ k)"
proof
  assume "isPowerOf2 (int n)"
  then obtain k where "int n = 2 ^ k"
    using isPowerOf2_imp_power by blast
  then have "n = 2 ^ k"
    by (metis nat_int nat_power_eq nat_numeral zero_le_numeral)
  then show "\<exists>k. n = 2 ^ k" ..
next
  assume "\<exists>k. n = 2 ^ k"
  then obtain k where "n = 2 ^ k" ..
  then have "int n = 2 ^ k"
    by simp
  then show "isPowerOf2 (int n)"
    by (simp add: isPowerOf2_power)
qed

lemma stage_eq:
  assumes "length out = 2 ^ L" and "s < L"
  shows "stage (2 ^ L) (Suc s) out = Inr (stage_from (2 ^ s) (twiddle (2 ^ Suc s)) 0 out)"
proof -
  have "(2::nat) * 2 ^ s dvd 2 ^ L"
    using assms(2) le_imp_power_dvd [of "Suc s" L "2::nat"] by simp
  then have "spans (2 ^ L) (Suc s) (twiddle (2 ^ Suc s)) 0 out =
      Inr (stage_from (2 ^ s) (twiddle (2 ^ Suc s)) 0 out)"
    using assms(1) by (intro spans_eq) simp_all
  moreover have "exp (Complex 0 (- 2 * pi / real (2 ^ Suc s))) = twiddle (2 ^ Suc s)"
    by (rule exp_twiddle)
  ultimately show ?thesis
    by (simp only: stage_def Let_def)
qed

lemma stages_inv:
  assumes "stage_inv x L 0 out0" and "S \<le> L"
  shows "\<exists>out. foldE (stage (2 ^ L)) [1..<Suc S] out0 = Inr out \<and> stage_inv x L S out"
  using assms(2)
proof (induction S)
  case 0
  then show ?case
    using assms(1) by simp
next
  case (Suc S)
  then obtain out where out: "foldE (stage (2 ^ L)) [1..<Suc S] out0 = Inr out"
    and inv: "stage_inv x L S out"
    by auto
  have len: "length out = 2 ^ L"
    using inv by (simp add: stage_inv_def)
  have SL: "S < L"
    using Suc.prems by simp
  have "foldE (stage (2 ^ L)) [1..<Suc (Suc S)] out0 =
      bindE (foldE (stage (2 ^ L)) [1..<Suc S] out0) (stage (2 ^ L) (Suc S))"
    by (rule foldE_upt_Suc) simp
  also have "\<dots> = Inr (stage_from (2 ^ S) (twiddle (2 ^ Suc S)) 0 out)"
    by (simp only: out bindE_Inr stage_eq [OF len SL])
  finally show ?case
    using stage_inv_step [OF inv SL] by blast
qed

lemma stage_inv_initial:
  assumes "length x = 2 ^ L"
  shows "stage_inv x L 0 (map (\<lambda>p. x ! reverseBits p L) [0..<length x])"
  using assms by (simp add: stage_inv_def)

lemma stage_inv_final:
  assumes "stage_inv x L L out" and "length x = 2 ^ L"
  shows "out = DFT x"
proof (rule nth_equalityI)
  show "length out = length (DFT x)"
    using assms by (simp add: stage_inv_def DFT_def)
next
  fix j
  assume "j < length out"
  then have j: "j < 2 ^ L"
    using assms(1) by (simp add: stage_inv_def)
  then have "out ! (0 * 2 ^ L + j) =
      (\<Sum>t<2 ^ L. x ! (t * 2 ^ (L - L) + reverseBits 0 (L - L)) * twiddle (2 ^ L) ^ (j * t))"
    using assms(1) unfolding stage_inv_def by (elim conjE allE [of _ 0] allE [of _ j]) simp
  then show "out ! j = DFT x ! j"
    using j assms(2) by (simp add: DFT_def)
qed

lemma FFT_eq_DFT:
  assumes "length x = 2 ^ L"
  shows "FFT x = Inr (DFT x)"
proof -
  let ?b = "map (\<lambda>p. x ! reverseBits p L) [0..<length x]"
  obtain out where out: "foldE (stage (2 ^ L)) [1..<Suc L] ?b = Inr out"
    and inv: "stage_inv x L L out"
    using stages_inv [OF stage_inv_initial [OF assms], of L] by auto
  have "isPowerOf2 (int (length x))"
    using assms by (simp add: isPowerOf2_power)
  then have "FFT x = foldE (stage (2 ^ L)) [1..<Suc L] ?b"
    using assms by (simp add: FFT_def Let_def bitReverse_eq [OF assms])
  then show ?thesis
    using out stage_inv_final [OF inv assms] by simp
qed

lemma length_DFT [simp]: "length (DFT x) = length x"
  by (simp add: DFT_def)

subsection \<open>The inverse transform\<close>

lemma nth_DFT: "k < length x \<Longrightarrow> DFT x ! k = (\<Sum>t<length x. x ! t * twiddle (length x) ^ (k * t))"
  by (simp add: DFT_def)

lemma IFFT_eq:
  assumes "length X = 2 ^ L"
  shows "IFFT X = Inr (map (\<lambda>v. cnj v / Complex (real (length X)) 0) (DFT (map cnj X)))"
proof -
  have "length (map cnj X) = 2 ^ L"
    using assms by simp
  then have "FFT (map cnj X) = Inr (DFT (map cnj X))"
    by (rule FFT_eq_DFT)
  moreover have "length X \<noteq> 0"
    using assms by simp
  ultimately show ?thesis
    by (simp add: IFFT_def Let_def)
qed





subsection \<open>Failure of the transform\<close>

lemma FFT_empty: "FFT [] = Inr []"
  by (simp add: FFT_def)

text \<open>
  Claim C3, as stated, has \<^verbatim>\<open>FFT\<close> fail on a length of zero; the source returns
  \<^verbatim>\<open>nil\<close> there, before the power-of-two test.
\<close>

theorem FFT_empty_no_failure: "FFT [] = Inr [] \<and> FFT [] \<noteq> Inl InvalidLength"
  by (simp add: FFT_def)

text \<open>
  Claim C3 (amended): \<^verbatim>\<open>FFT\<close> fails with \<open>InvalidLength\<close> exactly when the length of its
  input is not zero and not a power of two, and it fails in no other way; on the empty
  input it returns the empty sequence, and on every input whose length is a power of two
  it returns a sequence of that length.
\<close>

theorem FFT_InvalidLength_iff:
  "(FFT x = Inl InvalidLength \<longleftrightarrow> length x \<noteq> 0 \<and> (\<nexists>k. length x = 2 ^ k)) \<and>
   (\<forall>e. FFT x = Inl e \<longrightarrow> e = InvalidLength) \<and>
   (length x = 0 \<longrightarrow> FFT x = Inr []) \<and>
   ((\<exists>k. length x = 2 ^ k) \<longrightarrow> (\<exists>y. FFT x = Inr y \<and> length y = length x))"
proof (cases "\<exists>k. length x = 2 ^ k")
  case True
  then obtain k where k: "length x = 2 ^ k" ..
  have "FFT x = Inr (DFT x)"
    using k by (rule FFT_eq_DFT)
  moreover have "length x \<noteq> 0"
    using k by simp
  ultimately show ?thesis
    using True by simp
next
  case False
  show ?thesis
  proof (cases "length x = 0")
    case True
    then show ?thesis
      using False by (simp add: FFT_def)
  next
    case nz: False
    have "\<not> isPowerOf2 (int (length x))"
      using False by (simp add: isPowerOf2_nat_iff)
    then have "FFT x = Inl InvalidLength"
      using nz by (simp add: FFT_def Let_def)
    then show ?thesis
      using False nz by simp
  qed
qed

lemma three_not_power: "\<nexists>k. (3::nat) = 2 ^ k"
proof
  assume "\<exists>k. (3::nat) = 2 ^ k"
  then obtain k where k: "(3::nat) = 2 ^ k" ..
  show False
  proof (cases k)
    case 0
    with k show False by simp
  next
    case (Suc j)
    have "even ((2::nat) ^ Suc j)"
      by simp
    with k Suc have "even (3::nat)"
      by metis
    then show False
      by simp
  qed
qed

theorem FFT_InvalidLength_iff_witness:
  "FFT [1, 2, 3] = Inl InvalidLength \<and> (\<exists>y. FFT [1, 2] = Inr y \<and> length y = 2)"
proof -
  have "length [1, 2, 3 :: complex] = 3"
    by simp
  then have "length [1, 2, 3 :: complex] \<noteq> 0 \<and> (\<nexists>k. length [1, 2, 3 :: complex] = 2 ^ k)"
    using three_not_power by (simp only:) simp
  then have a: "FFT [1, 2, 3] = Inl InvalidLength"
    using FFT_InvalidLength_iff [of "[1, 2, 3]"] by blast
  have "length [1, 2 :: complex] = 2 ^ 1"
    by simp
  then have "\<exists>k. length [1, 2 :: complex] = 2 ^ k"
    by blast
  then have "\<exists>y. FFT [1, 2] = Inr y \<and> length y = length [1, 2 :: complex]"
    using FFT_InvalidLength_iff [of "[1, 2]"] by blast
  moreover have "length [1, 2 :: complex] = 2"
    by simp
  ultimately show ?thesis
    using a by (simp only:)
qed

subsection \<open>Loops with an invariant\<close>

lemma foldE_upt_invariant:
  assumes step: "\<And>i s. i < N \<Longrightarrow> P i s \<Longrightarrow> \<exists>s'. f i s = Inr s' \<and> P (Suc i) s'"
    and init: "P 0 s0"
  shows "\<exists>s'. foldE f [0..<N] s0 = Inr s' \<and> P N s'"
proof -
  have "J \<le> N \<Longrightarrow> \<exists>s'. foldE f [0..<J] s0 = Inr s' \<and> P J s'" for J
  proof (induction J)
    case 0
    then show ?case
      using init by simp
  next
    case (Suc J)
    then obtain s1 where s1: "foldE f [0..<J] s0 = Inr s1" "P J s1"
      by auto
    have "J < N"
      using Suc.prems by simp
    from step [OF this s1(2)] obtain s2 where "f J s1 = Inr s2" "P (Suc J) s2"
      by auto
    moreover have "foldE f [0..<Suc J] s0 = bindE (foldE f [0..<J] s0) (f J)"
      by (rule foldE_upt_Suc) simp
    ultimately show ?case
      using s1 by simp
  qed
  then show ?thesis
    by simp
qed

lemma foldE_update_range:
  assumes body: "\<And>i xs. i < N \<Longrightarrow> length xs = n \<Longrightarrow>
      f i xs = Inr (xs[base + i := h i (xs ! (base + i))])"
    and fit: "base + N \<le> n" and len: "length xs0 = n"
  shows "foldE f [0..<N] xs0 =
      Inr (map (\<lambda>p. if base \<le> p \<and> p < base + N then h (p - base) (xs0 ! p) else xs0 ! p) [0..<n])"
proof -
  let ?R = "\<lambda>J. map (\<lambda>p. if base \<le> p \<and> p < base + J then h (p - base) (xs0 ! p) else xs0 ! p) [0..<n]"
  have "\<exists>s'. foldE f [0..<N] xs0 = Inr s' \<and> s' = ?R N"
  proof (rule foldE_upt_invariant [where P = "\<lambda>J s. s = ?R J"])
    show "xs0 = ?R 0"
      using len by (intro nth_equalityI) auto
  next
    fix i s
    assume i: "i < N" and s: "s = ?R i"
    have ls: "length s = n"
      by (simp add: s)
    have cur: "s ! (base + i) = xs0 ! (base + i)"
      using i fit by (simp add: s)
    have "s[base + i := h i (s ! (base + i))] = ?R (Suc i)"
    proof (rule nth_equalityI)
      show "length (s[base + i := h i (s ! (base + i))]) = length (?R (Suc i))"
        by (simp add: ls)
    next
      fix p
      assume "p < length (s[base + i := h i (s ! (base + i))])"
      then have p: "p < n"
        by (simp add: ls)
      show "s[base + i := h i (s ! (base + i))] ! p = ?R (Suc i) ! p"
      proof (cases "p = base + i")
        case True
        then show ?thesis
          using p by (simp add: ls cur)
      next
        case False
        then have "s[base + i := h i (s ! (base + i))] ! p = s ! p"
          by simp
        also have "\<dots> = ?R (Suc i) ! p"
          using False p by (auto simp: s less_Suc_eq)
        finally show ?thesis .
      qed
    qed
    then show "\<exists>s'. f i s = Inr s' \<and> s' = ?R (Suc i)"
      using body [OF i ls] by simp
  qed
  then show ?thesis
    by simp
qed

subsection \<open>One frame of the pipeline\<close>

lemma applyWindow_eq:
  assumes "length frame \<le> length window"
  shows "applyWindow frame window = Inr (map (\<lambda>i. frame ! i * window ! i) [0..<length frame])"
proof -
  have "applyWindow frame window =
      Inr (map (\<lambda>p. if 0 \<le> p \<and> p < 0 + length frame then frame ! p * window ! (p - 0) else frame ! p)
             [0..<length frame])"
    unfolding applyWindow_def
    using assms by (intro foldE_update_range) simp_all
  then show ?thesis
    by simp
qed

lemma length_HannWindow: "1 < n \<Longrightarrow> length (HannWindow n) = nat n"
  by (simp add: HannWindow_def)

lemma length_window [simp]: "length (HannWindow (int FrameSize)) = FrameSize"
  by (simp add: HannWindow_def FrameSize_def)

lemma extractFrame_within:
  assumes "start + sz \<le> length src" and "int sz * 8 \<le> maxAlloc"
  shows "extractFrame src (int start) (int sz) = Inr (take sz (drop start src))"
proof -
  have "int start + int sz \<le> int (length src)"
    using assms by linarith
  then have "extractFrame src (int start) (int sz) =
      Inr (copy_slice (replicate sz 0) (take (start + sz - start) (drop start src)))"
    using assms(2) by (simp add: extractFrame_def Let_def nat_add_distrib)
  moreover have "length (take sz (drop start src)) = sz"
    using assms by simp
  ultimately show ?thesis
    by (simp add: copy_slice_def)
qed

lemma FrameSize_power: "FrameSize = 2 ^ 11"
  by (simp add: FrameSize_def)

lemma frame_spectrum_eq:
  assumes "fi * HopSize + FrameSize \<le> length samples"
  shows "frame_spectrum samples (HannWindow (int FrameSize)) fi =
      Inr (DFT (realToComplex (map (\<lambda>i. samples ! (fi * HopSize + i) * HannWindow (int FrameSize) ! i)
                                 [0..<FrameSize])))"
proof -
  let ?w = "HannWindow (int FrameSize)"
  let ?f = "take FrameSize (drop (fi * HopSize) samples)"
  have lf: "length ?f = FrameSize"
    using assms by simp
  have ex: "extractFrame samples (int (fi * HopSize)) (int FrameSize) = Inr ?f"
    by (rule extractFrame_within [OF assms]) (simp add: FrameSize_def maxAlloc_def)
  have "applyWindow ?f ?w = Inr (map (\<lambda>i. ?f ! i * ?w ! i) [0..<length ?f])"
    by (rule applyWindow_eq) (simp add: lf)
  also have "map (\<lambda>i. ?f ! i * ?w ! i) [0..<length ?f] =
      map (\<lambda>i. samples ! (fi * HopSize + i) * ?w ! i) [0..<FrameSize]"
    using assms by (simp add: lf)
  finally have aw: "applyWindow ?f ?w =
      Inr (map (\<lambda>i. samples ! (fi * HopSize + i) * ?w ! i) [0..<FrameSize])" .
  have "length (realToComplex (map (\<lambda>i. samples ! (fi * HopSize + i) * ?w ! i) [0..<FrameSize])) = 2 ^ 11"
    by (simp add: realToComplex_def FrameSize_power)
  then have "FFT (realToComplex (map (\<lambda>i. samples ! (fi * HopSize + i) * ?w ! i) [0..<FrameSize])) =
      Inr (DFT (realToComplex (map (\<lambda>i. samples ! (fi * HopSize + i) * ?w ! i) [0..<FrameSize])))"
    by (rule FFT_eq_DFT)
  then show ?thesis
    by (simp only: frame_spectrum_def Let_def ex aw bindE_Inr)
qed

lemma length_spectrum_of [simp]: "length (spectrum_of samples fi) = FrameSize"
  by (simp add: spectrum_of_def realToComplex_def)

lemma length_cleaned_of [simp]: "length (cleaned_of samples noiseMag fi) = FrameSize"
  by (simp add: cleaned_of_def)

lemma length_added [simp]: "length (added start N g xs) = length xs"
  by (simp add: added_def)

lemma frame_spectrum_of:
  "fi * HopSize + FrameSize \<le> length samples \<Longrightarrow>
     frame_spectrum samples (HannWindow (int FrameSize)) fi = Inr (spectrum_of samples fi)"
  by (simp only: spectrum_of_def frame_spectrum_eq)

lemma noise_frame_eq:
  assumes "fi * HopSize + FrameSize \<le> length samples" and "length noiseMag = FrameSize"
  shows "noise_frame samples (HannWindow (int FrameSize)) fi noiseMag =
      Inr (map (\<lambda>k. noiseMag ! k + cmod (spectrum_of samples fi ! k)) [0..<FrameSize])"
proof -
  let ?S = "spectrum_of samples fi"
  have "foldE (\<lambda>k nm. bindE (idx ?S k) (\<lambda>z. bindE (idx nm k) (\<lambda>v. upd nm k (v + cmod z))))
          [0..<FrameSize] noiseMag =
      Inr (map (\<lambda>p. if 0 \<le> p \<and> p < 0 + FrameSize then noiseMag ! p + cmod (?S ! (p - 0)) else noiseMag ! p)
             [0..<FrameSize])"
    using assms(2) by (intro foldE_update_range) simp_all
  then show ?thesis
    using frame_spectrum_of [OF assms(1)] by (simp add: noise_frame_def)
qed

lemma subtract_loop:
  assumes "length noiseMag = FrameSize" and "length spectrum = FrameSize"
  shows "foldE (subtract_bin noiseMag) [0..<FrameSize] spectrum =
      Inr (map (\<lambda>k. clean_bin (noiseMag ! k) (spectrum ! k)) [0..<FrameSize])"
proof -
  have "foldE (subtract_bin noiseMag) [0..<FrameSize] spectrum =
      Inr (map (\<lambda>p. if 0 \<le> p \<and> p < 0 + FrameSize then clean_bin (noiseMag ! (p - 0)) (spectrum ! p)
                     else spectrum ! p) [0..<FrameSize])"
    using assms by (intro foldE_update_range) (simp_all add: subtract_bin_def clean_bin_def Let_def)
  then show ?thesis
    by simp
qed

lemma overlap_add_loop:
  assumes "length cleaned = FrameSize" and "length window = FrameSize"
    and "length output = n" and "length windowSum = n"
  shows "foldE (overlap_add n start cleaned window) [0..<FrameSize] (output, windowSum) =
      Inr (added start FrameSize (\<lambda>j. Re (cleaned ! j) * window ! j) output,
           added start FrameSize (\<lambda>j. window ! j * window ! j) windowSum)"
proof -
  let ?R = "\<lambda>J. (added start J (\<lambda>j. Re (cleaned ! j) * window ! j) output,
                 added start J (\<lambda>j. window ! j * window ! j) windowSum)"
  have "\<exists>s'. foldE (overlap_add n start cleaned window) [0..<FrameSize] (output, windowSum) = Inr s' \<and>
           s' = ?R FrameSize"
  proof (rule foldE_upt_invariant [where P = "\<lambda>J s. s = ?R J"])
    have "added start 0 g xs = xs" for g and xs :: "real list"
      by (rule nth_equalityI) (auto simp: added_def)
    then show "(output, windowSum) = ?R 0"
      by simp
  next
    fix j s
    assume j: "j < FrameSize" and s: "s = ?R j"
    have step: "added start (Suc j) g xs =
        (if start + j < length xs then (added start j g xs)[start + j := added start j g xs ! (start + j) + g j]
         else added start j g xs)" for g and xs :: "real list"
    proof (rule nth_equalityI)
      show "length (added start (Suc j) g xs) =
          length (if start + j < length xs
                  then (added start j g xs)[start + j := added start j g xs ! (start + j) + g j]
                  else added start j g xs)"
        by simp
    next
      fix p
      assume "p < length (added start (Suc j) g xs)"
      then have p: "p < length xs"
        by simp
      show "added start (Suc j) g xs ! p =
          (if start + j < length xs
           then (added start j g xs)[start + j := added start j g xs ! (start + j) + g j]
           else added start j g xs) ! p"
      proof (cases "p = start + j")
        case True
        then show ?thesis
          using p by (simp add: added_def)
      next
        case False
        then show ?thesis
          using p by (auto simp: added_def less_Suc_eq)
      qed
    qed
    show "\<exists>s'. overlap_add n start cleaned window j s = Inr s' \<and> s' = ?R (Suc j)"
      using j assms by (simp add: s overlap_add_def Let_def step)
  qed
  then show ?thesis
    by simp
qed

lemma IFFT_frame:
  assumes "length X = FrameSize"
  shows "IFFT X = Inr (map (\<lambda>v. cnj v / Complex (real FrameSize) 0) (DFT (map cnj X)))"
proof -
  have "length X = 2 ^ 11"
    using assms by (simp add: FrameSize_power)
  then have "IFFT X = Inr (map (\<lambda>v. cnj v / Complex (real (length X)) 0) (DFT (map cnj X)))"
    by (rule IFFT_eq)
  then show ?thesis
    by (simp only: assms)
qed

lemma process_frame_eq:
  assumes "fi * HopSize + FrameSize \<le> length samples" and "length noiseMag = FrameSize"
    and "length output = n" and "length windowSum = n"
  shows "process_frame samples (HannWindow (int FrameSize)) noiseMag n fi (output, windowSum) =
      Inr (added (fi * HopSize) FrameSize
             (\<lambda>j. Re (cleaned_of samples noiseMag fi ! j) * HannWindow (int FrameSize) ! j) output,
           added (fi * HopSize) FrameSize
             (\<lambda>j. HannWindow (int FrameSize) ! j * HannWindow (int FrameSize) ! j) windowSum)"
proof -
  let ?X = "map (\<lambda>k. clean_bin (noiseMag ! k) (spectrum_of samples fi ! k)) [0..<FrameSize]"
  have sub: "foldE (subtract_bin noiseMag) [0..<FrameSize] (spectrum_of samples fi) = Inr ?X"
    using assms(2) by (intro subtract_loop) simp_all
  have inv: "IFFT ?X = Inr (cleaned_of samples noiseMag fi)"
    unfolding cleaned_of_def by (rule IFFT_frame) simp
  show ?thesis
    unfolding process_frame_def Let_def
    by (simp only: frame_spectrum_of [OF assms(1)] bindE_Inr sub inv)
       (rule overlap_add_loop, simp_all add: assms)
qed

subsection \<open>The two passes over the frames\<close>

lemma length_padded: "length (padded samples0) = max (length samples0) FrameSize"
  by (auto simp: padded_def copy_slice_def)

lemma padded_zero:
  assumes "\<forall>v\<in>set samples0. v = 0" and "i < length (padded samples0)"
  shows "padded samples0 ! i = 0"
proof (cases "length samples0 < FrameSize")
  case True
  then have "padded samples0 = samples0 @ replicate (FrameSize - length samples0) 0"
    by (simp add: padded_def copy_slice_def)
  then show ?thesis
    using assms by (auto simp: nth_append)
next
  case False
  then show ?thesis
    using assms by (simp add: padded_def)
qed

lemma frame_fits:
  assumes "FrameSize \<le> n" and "fi < frames_of n"
  shows "fi * HopSize + FrameSize \<le> n"
proof -
  have "fi \<le> (n - FrameSize) div HopSize"
    using assms(2) by (simp add: frames_of_def)
  then have "fi * HopSize \<le> (n - FrameSize) div HopSize * HopSize"
    by (rule mult_le_mono1)
  also have "\<dots> \<le> n - FrameSize"
    by simp
  finally show ?thesis
    using assms(1) by linarith
qed

lemma DFT_zero:
  assumes "\<forall>v\<in>set x. v = 0"
  shows "DFT x = replicate (length x) 0"
proof (rule nth_equalityI)
  show "length (DFT x) = length (replicate (length x) 0)"
    by simp
next
  fix k
  assume "k < length (DFT x)"
  then have k: "k < length x"
    by simp
  have "x ! t = 0" if "t < length x" for t
    using assms that by (simp add: all_set_conv_all_nth)
  then have "(\<Sum>t<length x. x ! t * twiddle (length x) ^ (k * t)) = 0"
    by simp
  then show "DFT x ! k = replicate (length x) 0 ! k"
    using k by (simp add: nth_DFT)
qed

lemma spectrum_of_zero:
  assumes "\<forall>i<length samples. samples ! i = 0" and "fi * HopSize + FrameSize \<le> length samples"
  shows "spectrum_of samples fi = replicate FrameSize 0"
proof -
  have "\<forall>v\<in>set (realToComplex (map (\<lambda>i. samples ! (fi * HopSize + i) * HannWindow (int FrameSize) ! i)
      [0..<FrameSize])). v = 0"
    using assms by (auto simp: realToComplex_def complex_eq_iff)
  from DFT_zero [OF this] show ?thesis
    by (simp add: spectrum_of_def realToComplex_def)
qed

lemma clean_bin_zero: "clean_bin 0 0 = 0"
  by (simp add: clean_bin_def Phase_def atan2_def Rect_def complex_eq_iff)

lemma cleaned_of_zero:
  assumes "spectrum_of samples fi = replicate FrameSize 0" and "noiseMag = replicate FrameSize 0"
  shows "cleaned_of samples noiseMag fi = replicate FrameSize 0"
proof -
  have "map (\<lambda>k. clean_bin (noiseMag ! k) (spectrum_of samples fi ! k)) [0..<FrameSize] =
      replicate FrameSize 0"
    by (rule nth_equalityI) (simp_all add: assms clean_bin_zero)
  moreover have "DFT (map cnj (replicate FrameSize 0)) = replicate FrameSize 0"
    using DFT_zero [of "map cnj (replicate FrameSize 0)"] by simp
  ultimately show ?thesis
    by (simp add: cleaned_of_def)
qed

lemma added_zero: "added start N (\<lambda>j. 0) (replicate n 0) = replicate n 0"
  by (rule nth_equalityI) (simp_all add: added_def)

lemma windowSum_upto_Suc:
  "added (F * HopSize) FrameSize
     (\<lambda>j. HannWindow (int FrameSize) ! j * HannWindow (int FrameSize) ! j) (windowSum_upto n F) =
   windowSum_upto n (Suc F)"
  by (rule nth_equalityI) (simp_all add: added_def windowSum_upto_def power2_eq_square)

lemma windowSum_upto_0: "windowSum_upto n 0 = replicate n 0"
  by (rule nth_equalityI) (simp_all add: windowSum_upto_def)

lemma noise_pass:
  assumes "FrameSize \<le> length samples" and "N \<le> frames_of (length samples)"
  shows "\<exists>noiseSum. foldE (noise_frame samples (HannWindow (int FrameSize))) [0..<N]
            (replicate FrameSize 0) = Inr noiseSum \<and>
          length noiseSum = FrameSize \<and>
          ((\<forall>i<length samples. samples ! i = 0) \<longrightarrow> noiseSum = replicate FrameSize 0)"
proof (rule foldE_upt_invariant [where P = "\<lambda>J nm. length nm = FrameSize \<and>
          ((\<forall>i<length samples. samples ! i = 0) \<longrightarrow> nm = replicate FrameSize 0)"])
  show "length (replicate FrameSize (0::real)) = FrameSize \<and>
      ((\<forall>i<length samples. samples ! i = 0) \<longrightarrow> replicate FrameSize (0::real) = replicate FrameSize 0)"
    by simp
next
  fix fi and nm :: "real list"
  assume fi: "fi < N"
    and nm: "length nm = FrameSize \<and> ((\<forall>i<length samples. samples ! i = 0) \<longrightarrow> nm = replicate FrameSize 0)"
  have fit: "fi * HopSize + FrameSize \<le> length samples"
    using assms fi by (intro frame_fits) simp_all
  let ?r = "map (\<lambda>k. nm ! k + cmod (spectrum_of samples fi ! k)) [0..<FrameSize]"
  have "noise_frame samples (HannWindow (int FrameSize)) fi nm = Inr ?r"
    using fit nm by (intro noise_frame_eq) simp_all
  moreover have "?r = replicate FrameSize 0" if "\<forall>i<length samples. samples ! i = 0"
    using nm that spectrum_of_zero [OF that fit] by (intro nth_equalityI) simp_all
  ultimately show "\<exists>s'. noise_frame samples (HannWindow (int FrameSize)) fi nm = Inr s' \<and>
      length s' = FrameSize \<and> ((\<forall>i<length samples. samples ! i = 0) \<longrightarrow> s' = replicate FrameSize 0)"
    by simp
qed

lemma frames_pass:
  assumes "FrameSize \<le> length samples" and "N \<le> frames_of (length samples)"
    and "length noiseMag = FrameSize"
  shows "\<exists>output. foldE (process_frame samples (HannWindow (int FrameSize)) noiseMag (length samples))
            [0..<N] (replicate (length samples) 0, replicate (length samples) 0) =
              Inr (output, windowSum_upto (length samples) N) \<and>
          length output = length samples \<and>
          ((\<forall>i<length samples. samples ! i = 0) \<and> noiseMag = replicate FrameSize 0 \<longrightarrow>
             output = replicate (length samples) 0)"
proof -
  let ?n = "length samples"
  let ?Z = "(\<forall>i<?n. samples ! i = 0) \<and> noiseMag = replicate FrameSize 0"
  let ?P = "\<lambda>J s. snd s = windowSum_upto ?n J \<and> length (fst s) = ?n \<and>
      (?Z \<longrightarrow> fst s = replicate ?n 0)"
  have "\<exists>s'. foldE (process_frame samples (HannWindow (int FrameSize)) noiseMag ?n)
            [0..<N] (replicate ?n 0, replicate ?n 0) = Inr s' \<and> ?P N s'"
  proof (rule foldE_upt_invariant [where P = ?P])
    show "?P 0 (replicate ?n 0, replicate ?n 0)"
      by (simp add: windowSum_upto_0)
  next
    fix fi and s :: "real list \<times> real list"
    assume fi: "fi < N" and s: "?P fi s"
    obtain out ws where sp: "s = (out, ws)"
      by (cases s)
    have ws: "ws = windowSum_upto ?n fi" and lo: "length out = ?n"
      and z: "?Z \<longrightarrow> out = replicate ?n 0"
      using s by (simp_all add: sp)
    have fit: "fi * HopSize + FrameSize \<le> ?n"
      using assms fi by (intro frame_fits) simp_all
    have lw: "length ws = ?n"
      by (simp add: ws windowSum_upto_def)
    let ?o = "added (fi * HopSize) FrameSize
         (\<lambda>j. Re (cleaned_of samples noiseMag fi ! j) * HannWindow (int FrameSize) ! j) out"
    have run: "process_frame samples (HannWindow (int FrameSize)) noiseMag ?n fi (out, ws) =
        Inr (?o, windowSum_upto ?n (Suc fi))"
      using process_frame_eq [OF fit assms(3) lo lw] by (simp only: ws windowSum_upto_Suc)
    have "?o = replicate ?n 0" if Z: ?Z
    proof -
      have "cleaned_of samples noiseMag fi = replicate FrameSize 0"
        using Z spectrum_of_zero [OF _ fit] by (intro cleaned_of_zero) simp_all
      then have "(\<lambda>j. Re (cleaned_of samples noiseMag fi ! j) * HannWindow (int FrameSize) ! j) =
          (\<lambda>j. if j < FrameSize then 0 else
             Re (cleaned_of samples noiseMag fi ! j) * HannWindow (int FrameSize) ! j)"
        by (intro ext) simp
      moreover have "out = replicate ?n 0"
        using z Z by simp
      ultimately show ?thesis
        by (intro nth_equalityI) (auto simp: added_def)
    qed
    then show "\<exists>s'. process_frame samples (HannWindow (int FrameSize)) noiseMag ?n fi s = Inr s' \<and>
        ?P (Suc fi) s'"
      using run lo by (simp add: sp)
  qed
  then obtain s' where "foldE (process_frame samples (HannWindow (int FrameSize)) noiseMag ?n)
            [0..<N] (replicate ?n 0, replicate ?n 0) = Inr s'" and "?P N s'"
    by blast
  then show ?thesis
    by (cases s') auto
qed

subsection \<open>The pipeline as a whole\<close>

lemma length_windowSum_of [simp]: "length (windowSum_of samples0) = length (padded samples0)"
  by (simp add: windowSum_of_def windowSum_upto_def)

lemma length_divided [simp]: "length (divided windowSum output) = length output"
  by (simp add: divided_def)

lemma accumulate_run:
  "\<exists>outp. accumulate samples0 = Inr (length (padded samples0), outp, windowSum_of samples0) \<and>
     length outp = length (padded samples0) \<and>
     ((\<forall>v\<in>set samples0. v = 0) \<longrightarrow> outp = replicate (length (padded samples0)) 0)"
proof -
  let ?s = "padded samples0"
  let ?n = "length ?s"
  let ?W = "HannWindow (int FrameSize)"
  let ?T = "frames_of ?n"
  define nf where "nf = (if NoiseFrames > ?T then ?T else NoiseFrames)"
  have big: "FrameSize \<le> ?n"
    by (simp add: length_padded)
  have nfT: "nf \<le> ?T"
    by (simp add: nf_def)
  have n_eq: "(if length samples0 < FrameSize then FrameSize else length samples0) = ?n"
    by (simp add: length_padded max_def)
  have s_eq: "(if length samples0 < FrameSize then copy_slice (replicate FrameSize 0) samples0
               else samples0) = ?s"
    by (simp add: padded_def)
  have T_eq: "(if (?n - FrameSize) div HopSize + 1 < 1 then 1 else (?n - FrameSize) div HopSize + 1) = ?T"
    by (simp add: frames_of_def)
  have nf_eq: "(if NoiseFrames > ?T then ?T else NoiseFrames) = nf"
    by (simp add: nf_def)
  have unfold: "accumulate samples0 =
      bindE (foldE (noise_frame ?s ?W) [0..<nf] (replicate FrameSize 0)) (\<lambda>noiseSum.
      bindE (foldE (process_frame ?s ?W (map (\<lambda>v. v / real nf) noiseSum) ?n) [0..<?T]
               (replicate ?n 0, replicate ?n 0)) (\<lambda>(outp, windowSum).
      Inr (?n, outp, windowSum)))"
    by (simp only: accumulate_def Let_def n_eq s_eq T_eq nf_eq)
  have zero: "\<forall>i<?n. ?s ! i = 0" if "\<forall>v\<in>set samples0. v = 0"
    using that padded_zero by blast
  obtain noiseSum where ns: "foldE (noise_frame ?s ?W) [0..<nf] (replicate FrameSize 0) = Inr noiseSum"
    and lns: "length noiseSum = FrameSize"
    and zns: "(\<forall>i<?n. ?s ! i = 0) \<longrightarrow> noiseSum = replicate FrameSize 0"
    using noise_pass [OF big nfT] by blast
  let ?nm = "map (\<lambda>v. v / real nf) noiseSum"
  have lnm: "length ?nm = FrameSize"
    by (simp add: lns)
  have znm: "?nm = replicate FrameSize 0" if "\<forall>i<?n. ?s ! i = 0"
    using zns that by simp
  obtain outp where out: "foldE (process_frame ?s ?W ?nm ?n) [0..<?T]
        (replicate ?n 0, replicate ?n 0) = Inr (outp, windowSum_upto ?n ?T)"
    and lo: "length outp = ?n"
    and zo: "(\<forall>i<?n. ?s ! i = 0) \<and> ?nm = replicate FrameSize 0 \<longrightarrow> outp = replicate ?n 0"
    using frames_pass [OF big le_refl lnm] by blast
  have "accumulate samples0 = Inr (?n, outp, windowSum_of samples0)"
    by (simp add: unfold ns out windowSum_of_def)
  moreover have "outp = replicate ?n 0" if "\<forall>v\<in>set samples0. v = 0"
    using zo zero [OF that] znm by blast
  ultimately show ?thesis
    using lo by blast
qed

lemma divide_loop:
  assumes "length windowSum = n" and "length outp = n"
  shows "foldE (divide_step windowSum) [0..<n] outp = Inr (divided windowSum outp)"
proof -
  have "foldE (divide_step windowSum) [0..<n] outp =
      Inr (map (\<lambda>p. if 0 \<le> p \<and> p < 0 + n
                     then (if windowSum ! (p - 0) > 1 / 10 ^ 8 then outp ! p / windowSum ! (p - 0)
                           else outp ! p)
                     else outp ! p) [0..<n])"
    using assms by (intro foldE_update_range) (simp_all add: divide_step_def)
  then show ?thesis
    using assms by (simp add: divided_def)
qed

lemma Denoise_run:
  assumes "samples \<noteq> []"
  shows "\<exists>outp. accumulate samples = Inr (length (padded samples), outp, windowSum_of samples) \<and>
      length outp = length (padded samples) \<and>
      ((\<forall>v\<in>set samples. v = 0) \<longrightarrow> outp = replicate (length (padded samples)) 0) \<and>
      Denoise samples sampleRate = Inr (normalize (divided (windowSum_of samples) outp) 0.95)"
proof -
  obtain outp where acc: "accumulate samples = Inr (length (padded samples), outp, windowSum_of samples)"
    and lo: "length outp = length (padded samples)"
    and zo: "(\<forall>v\<in>set samples. v = 0) \<longrightarrow> outp = replicate (length (padded samples)) 0"
    using accumulate_run by blast
  have "foldE (divide_step (windowSum_of samples)) [0..<length (padded samples)] outp =
      Inr (divided (windowSum_of samples) outp)"
    using lo by (intro divide_loop) simp_all
  then have "Denoise samples sampleRate = Inr (normalize (divided (windowSum_of samples) outp) 0.95)"
    using assms by (simp add: Denoise_def acc)
  with acc lo zo show ?thesis
    by blast
qed

lemma length_normalize [simp]: "length (normalize xs t) = length xs"
  by (simp add: normalize_def Let_def)

text \<open>
  Claim C2: \<^verbatim>\<open>Denoise\<close> returns (it never panics) a sequence of the length of its
  input when that length is at least \<open>FrameSize\<close>, of length \<open>FrameSize\<close> when the
  input is shorter but not empty, and the empty sequence on the empty input.
\<close>

theorem Denoise_length:
  "(FrameSize \<le> length samples \<longrightarrow>
      (\<exists>out. Denoise samples sampleRate = Inr out \<and> length out = length samples)) \<and>
   (0 < length samples \<and> length samples < FrameSize \<longrightarrow>
      (\<exists>out. Denoise samples sampleRate = Inr out \<and> length out = FrameSize)) \<and>
   (length samples = 0 \<longrightarrow> Denoise samples sampleRate = Inr [])"
proof (cases "samples = []")
  case True
  then show ?thesis
    by (simp add: Denoise_def FrameSize_def)
next
  case False
  from Denoise_run [OF this, of sampleRate] obtain outp where
    "length outp = length (padded samples)"
    "Denoise samples sampleRate = Inr (normalize (divided (windowSum_of samples) outp) 0.95)"
    by blast
  then have "\<exists>out. Denoise samples sampleRate = Inr out \<and> length out = max (length samples) FrameSize"
    by (simp add: length_padded)
  then show ?thesis
    using False by (auto simp: max_def)
qed

theorem Denoise_length_witness:
  "(\<exists>out. Denoise (replicate 2048 1) 44100 = Inr out \<and> length out = 2048) \<and>
   (\<exists>out. Denoise [1, 2, 3] 44100 = Inr out \<and> length out = 2048) \<and>
   Denoise [] 44100 = Inr []"
proof -
  have "FrameSize \<le> length (replicate 2048 (1::real))"
    by (simp add: FrameSize_def)
  then have a: "\<exists>out. Denoise (replicate 2048 1) 44100 = Inr out \<and> length out = length (replicate 2048 (1::real))"
    using Denoise_length [of "replicate 2048 1" 44100] by blast
  have "0 < length [1, 2, 3 :: real] \<and> length [1, 2, 3 :: real] < FrameSize"
    by (simp add: FrameSize_def)
  then have b: "\<exists>out. Denoise [1, 2, 3] 44100 = Inr out \<and> length out = FrameSize"
    using Denoise_length [of "[1, 2, 3]" 44100] by blast
  have c: "Denoise [] 44100 = Inr []"
    using Denoise_length [of "[]" 44100] by simp
  from a b c show ?thesis
    by (simp add: FrameSize_def)
qed

subsection \<open>Peak normalisation\<close>

lemma peak_fold:
  fixes p :: real
  defines "f \<equiv> (\<lambda>s peak. let a = \<bar>s\<bar> in if a > peak then a else peak)"
  shows "p \<le> fold f xs p \<and> (\<forall>s\<in>set xs. \<bar>s\<bar> \<le> fold f xs p) \<and>
         (fold f xs p = p \<or> (\<exists>s\<in>set xs. \<bar>s\<bar> = fold f xs p))"
proof (induction xs arbitrary: p)
  case Nil
  show ?case by simp
next
  case (Cons x xs)
  have fx: "f x p = max p \<bar>x\<bar>"
    by (simp add: f_def Let_def max_def)
  from Cons [of "f x p"] show ?case
    by (auto simp: fx max_def split: if_splits)
qed


lemma peak_of_nonneg: "0 \<le> peak_of xs"
  using peak_fold [of 0 xs] by (simp add: peak_of_def)


lemma peak_of_zeros: "peak_of (replicate n 0) = 0"
proof -
  have "peak_of (replicate n 0) = 0 \<or> (\<exists>s\<in>set (replicate n (0::real)). \<bar>s\<bar> = peak_of (replicate n 0))"
    using peak_fold [of 0 "replicate n 0"] by (simp add: peak_of_def)
  then show ?thesis
    by auto
qed

lemma normalize_silent: "peak_of xs < 1 / 10 ^ 10 \<Longrightarrow> normalize xs t = xs"
  by (simp add: normalize_def Let_def)







lemma divided_zeros: "divided ws (replicate n 0) = replicate n 0"
  by (rule nth_equalityI) (simp_all add: divided_def)

text \<open>
  Claim C4, as stated for every \<open>N\<close>, fails at \<open>N = 0\<close>: the result is empty, not
  \<open>max(0, FrameSize)\<close> zeros.
\<close>

theorem Denoise_silence_empty:
  "Denoise (replicate 0 0) 44100 = Inr [] \<and>
   Denoise (replicate 0 0) 44100 \<noteq> Inr (replicate (max 0 FrameSize) 0)"
  by (simp add: Denoise_def FrameSize_def)

text \<open>
  Claim C4 (amended): for every \<open>N > 0\<close>, \<^verbatim>\<open>Denoise\<close> maps \<open>N\<close> zeros to
  \<open>max(N, FrameSize)\<close> zeros, exactly (so within \<open>1e-12\<close>).
\<close>

theorem Denoise_silence:
  assumes "0 < N"
  shows "Denoise (replicate N 0) sampleRate = Inr (replicate (max N FrameSize) 0)"
proof -
  let ?x = "replicate N (0::real)"
  have ne: "?x \<noteq> []"
    using assms by simp
  from Denoise_run [OF ne, of sampleRate] obtain outp where
    z: "(\<forall>v\<in>set ?x. v = 0) \<longrightarrow> outp = replicate (length (padded ?x)) 0"
    and d: "Denoise ?x sampleRate = Inr (normalize (divided (windowSum_of ?x) outp) 0.95)"
    by blast
  have "outp = replicate (max N FrameSize) 0"
    using z by (simp add: length_padded)
  then have "divided (windowSum_of ?x) outp = replicate (max N FrameSize) 0"
    by (simp add: divided_zeros)
  moreover have "normalize (replicate (max N FrameSize) 0) 0.95 = replicate (max N FrameSize) 0"
    by (rule normalize_silent) (simp add: peak_of_zeros)
  ultimately show ?thesis
    using d by simp
qed

theorem Denoise_silence_witness:
  "Denoise (replicate 3 0) 44100 = Inr (replicate 2048 0)"
proof -
  have "(0::nat) < 3"
    by simp
  from Denoise_silence [OF this, of 44100] show ?thesis
    by (simp add: FrameSize_def)
qed

subsection \<open>The accumulated window energy\<close>

lemma built_windowSum_eq: "built_windowSum samples = windowSum_of samples"
proof -
  obtain outp where "accumulate samples = Inr (length (padded samples), outp, windowSum_of samples)"
    using accumulate_run by blast
  then show ?thesis
    by (simp add: built_windowSum_def)
qed

lemma HopSize_value: "HopSize = 1024"
  by (simp add: HopSize_def FrameSize_def)

lemma nth_window:
  assumes "j < 2048"
  shows "HannWindow (int FrameSize) ! j = (1 - cos (2 * pi * real j / 2047)) / 2"
  using assms by (simp add: HannWindow_def FrameSize_def)

lemma windowSum_two_frames:
  assumes lo: "HopSize \<le> i" and hi: "i < frames_of n * HopSize"
  shows "windowSum_upto n (frames_of n) ! i =
      (HannWindow (int FrameSize) ! (i mod HopSize))\<^sup>2 +
      (HannWindow (int FrameSize) ! (i mod HopSize + HopSize))\<^sup>2"
    and "i < n"
proof -
  let ?T = "frames_of n"
  let ?W = "HannWindow (int FrameSize)"
  define a where "a = i div 1024"
  define r where "r = i mod 1024"
  have i: "i = 1024 * a + r" and r: "r < 1024"
    by (simp_all add: a_def r_def)
  have a1: "1 \<le> a"
    using lo i r by (simp add: HopSize_value)
  have aT: "a < ?T"
    using hi i r by (simp add: HopSize_value)
  have "(?T - 1) * HopSize \<le> n - FrameSize"
    by (simp add: frames_of_def)
  then have "?T * 1024 \<le> (n - 2048) + 1024"
    by (simp add: HopSize_value FrameSize_def algebra_simps)
  with hi lo show n: "i < n"
    by (simp add: HopSize_value)
  let ?g = "\<lambda>fi. if fi * HopSize \<le> i \<and> i < fi * HopSize + FrameSize
                 then (?W ! (i - fi * HopSize))\<^sup>2 else 0"
  have cond: "(fi * HopSize \<le> i \<and> i < fi * HopSize + FrameSize) \<longleftrightarrow> fi = a \<or> fi = a - 1" for fi
    using i r a1 by (simp add: HopSize_value FrameSize_def) linarith
  have "(\<Sum>fi<?T. ?g fi) = (\<Sum>fi\<in>{a - 1, a}. ?g fi)"
  proof (rule sum.mono_neutral_right)
    show "finite {..<?T}"
      by simp
    show "{a - 1, a} \<subseteq> {..<?T}"
      using aT by auto
    show "\<forall>fi\<in>{..<?T} - {a - 1, a}. ?g fi = 0"
      by (auto simp: cond)
  qed
  also have "\<dots> = ?g (a - 1) + ?g a"
    using a1 by simp
  also have "?g a = (?W ! r)\<^sup>2"
  proof -
    have "a * HopSize \<le> i \<and> i < a * HopSize + FrameSize"
      using cond [of a] by simp
    moreover have "i - a * HopSize = r"
      using i by (simp add: HopSize_value)
    ultimately show ?thesis
      by simp
  qed
  also have "?g (a - 1) = (?W ! (r + 1024))\<^sup>2"
  proof -
    have "(a - 1) * HopSize \<le> i \<and> i < (a - 1) * HopSize + FrameSize"
      using cond [of "a - 1"] by simp
    moreover have "i - (a - 1) * HopSize = r + 1024"
      using i a1 by (simp add: HopSize_value algebra_simps)
    ultimately show ?thesis
      by simp
  qed
  finally have "(\<Sum>fi<?T. ?g fi) = (?W ! r)\<^sup>2 + (?W ! (r + 1024))\<^sup>2"
    by simp
  then show "windowSum_upto n ?T ! i = (?W ! (i mod HopSize))\<^sup>2 + (?W ! (i mod HopSize + HopSize))\<^sup>2"
    using n by (simp add: windowSum_upto_def HopSize_value r_def cong: if_cong)
qed

lemma hann_upper_half:
  assumes "j < 1024"
  shows "HannWindow (int FrameSize) ! (j + 1024) = (1 + cos (2 * pi * real j / 2047 + pi / 2047)) / 2"
proof -
  have "2 * pi * real (j + 1024) / 2047 = (2 * pi * real j / 2047 + pi / 2047) + pi"
    by (simp add: field_simps)
  then have "cos (2 * pi * real (j + 1024) / 2047) = - cos (2 * pi * real j / 2047 + pi / 2047)"
    by (simp only: cos_periodic_pi)
  then show ?thesis
    using assms by (simp add: nth_window)
qed

lemma cos_step:
  fixes x d :: real
  assumes "0 \<le> d"
  shows "cos x - cos (x + d) \<le> d"
proof -
  have "cos x - cos (x + d) = 2 * sin ((x + (x + d)) / 2) * sin (((x + d) - x) / 2)"
    by (rule cos_diff_cos)
  also have "\<dots> = 2 * sin ((x + (x + d)) / 2) * sin (d / 2)"
    by simp
  also have "\<dots> \<le> 2 * (\<bar>sin ((x + (x + d)) / 2)\<bar> * \<bar>sin (d / 2)\<bar>)"
    by (simp add: abs_mult [symmetric])
  also have "\<bar>sin ((x + (x + d)) / 2)\<bar> * \<bar>sin (d / 2)\<bar> \<le> 1 * \<bar>d / 2\<bar>"
  proof (rule mult_mono)
    show "\<bar>sin ((x + (x + d)) / 2)\<bar> \<le> 1"
      by (rule abs_sin_le_one)
    show "\<bar>sin (d / 2)\<bar> \<le> \<bar>d / 2\<bar>"
      by (rule abs_sin_x_le_abs_x)
  qed simp_all
  finally show ?thesis
    using assms by simp
qed

lemma hann_pair_bounds:
  assumes "j < 1024"
  shows "499 / 1000 \<le> (HannWindow (int FrameSize) ! j)\<^sup>2 + (HannWindow (int FrameSize) ! (j + 1024))\<^sup>2"
    and "(HannWindow (int FrameSize) ! j)\<^sup>2 + (HannWindow (int FrameSize) ! (j + 1024))\<^sup>2 \<le> 1"
proof -
  define x where "x = 2 * pi * real j / 2047"
  define c1 where "c1 = cos x"
  define c2 where "c2 = cos (x + pi / 2047)"
  define a where "a = (1 - c1) / 2"
  define b where "b = (1 + c2) / 2"
  have wa: "HannWindow (int FrameSize) ! j = a"
    using assms by (simp add: nth_window a_def c1_def x_def)
  have wb: "HannWindow (int FrameSize) ! (j + 1024) = b"
    using hann_upper_half [OF assms] by (simp add: b_def c2_def x_def)
  have x0: "0 \<le> x"
    by (simp add: x_def)
  have "real j \<le> 1023"
    using assms by simp
  then have "2 * pi * real j \<le> 2 * pi * 1023"
    by (intro mult_left_mono) simp_all
  then have xpi: "x + pi / 2047 \<le> pi"
    by (simp add: x_def field_simps)
  have le: "c2 \<le> c1"
    unfolding c1_def c2_def using x0 xpi by (intro cos_monotone_0_pi_le) simp_all
  have "c1 - c2 \<le> pi / 2047"
    unfolding c1_def c2_def by (rule cos_step) simp
  also have "\<dots> \<le> 4 / 2047"
    using pi_less_4 by simp
  finally have diff: "c1 - c2 \<le> 4 / 2047" .
  have c1: "- 1 \<le> c1" "c1 \<le> 1" and c2: "- 1 \<le> c2" "c2 \<le> 1"
    by (simp_all add: c1_def c2_def)
  have a0: "0 \<le> a" and b0: "0 \<le> b"
    using c1 c2 by (simp_all add: a_def b_def)
  have "(1 + c2)\<^sup>2 \<le> (1 + c1)\<^sup>2"
    using le c2 by (intro power_mono) simp_all
  moreover have "c1\<^sup>2 \<le> 1"
    using c1 by (simp add: abs_square_le_1 abs_le_iff)
  ultimately have "(1 - c1)\<^sup>2 + (1 + c2)\<^sup>2 \<le> 4"
    by (simp add: power2_eq_square algebra_simps)
  then have "a\<^sup>2 + b\<^sup>2 \<le> 1"
    by (simp add: a_def b_def power_divide)
  then show "(HannWindow (int FrameSize) ! j)\<^sup>2 + (HannWindow (int FrameSize) ! (j + 1024))\<^sup>2 \<le> 1"
    by (simp only: wa wb)
  have "a + b = 1 - (c1 - c2) / 2"
    by (simp add: a_def b_def field_simps)
  then have ab: "2045 / 2047 \<le> a + b"
    using diff by simp
  have "(a + b)\<^sup>2 \<le> 2 * (a\<^sup>2 + b\<^sup>2)"
    using sum_squares_bound [of a b] by (simp add: power2_eq_square algebra_simps)
  moreover have "(2045 / 2047)\<^sup>2 \<le> (a + b)\<^sup>2"
    using ab by (intro power_mono) simp_all
  ultimately have "(2045 / 2047)\<^sup>2 / 2 \<le> a\<^sup>2 + b\<^sup>2"
    by simp
  moreover have "(499::real) / 1000 \<le> (2045 / 2047)\<^sup>2 / 2"
    by (simp add: power2_eq_square)
  ultimately have "499 / 1000 \<le> a\<^sup>2 + b\<^sup>2"
    by linarith
  then show "499 / 1000 \<le> (HannWindow (int FrameSize) ! j)\<^sup>2 + (HannWindow (int FrameSize) ! (j + 1024))\<^sup>2"
    by (simp only: wa wb)
qed

lemma hann_pair_512:
  "(HannWindow (int FrameSize) ! 512)\<^sup>2 + (HannWindow (int FrameSize) ! (512 + 1024))\<^sup>2 \<le> 51 / 100"
proof -
  define d where "d = pi / 4094"
  have d: "0 \<le> d" "d \<le> 1 / 1000" "3 * d \<le> pi"
    using pi_less_4 pi_ge_zero by (simp_all add: d_def)
  have e1: "2 * pi * real (512::nat) / 2047 = pi / 2 + d"
    by (simp add: d_def field_simps)
  have e2: "2 * pi * real (512::nat) / 2047 + pi / 2047 = pi / 2 + 3 * d"
    by (simp add: d_def field_simps)
  have "cos (2 * pi * real (512::nat) / 2047) = - sin d"
    by (simp only: e1) (simp add: cos_add)
  then have wa: "HannWindow (int FrameSize) ! 512 = (1 + sin d) / 2"
    using nth_window [of 512] by simp
  have "cos (2 * pi * real (512::nat) / 2047 + pi / 2047) = - sin (3 * d)"
    by (simp only: e2) (simp add: cos_add)
  then have wb: "HannWindow (int FrameSize) ! (512 + 1024) = (1 - sin (3 * d)) / 2"
    using hann_upper_half [of 512] by simp
  have s1: "0 \<le> sin d" "sin d \<le> 1 / 1000"
    using d sin_x_le_x [of d] by (auto intro: sin_ge_zero)
  have s3: "0 \<le> sin (3 * d)" "sin (3 * d) \<le> 1"
    using d by (auto intro: sin_ge_zero)
  have "((1 + sin d) / 2)\<^sup>2 \<le> ((1 + 1 / 1000) / 2)\<^sup>2"
    using s1 by (intro power_mono) simp_all
  moreover have "((1 - sin (3 * d)) / 2)\<^sup>2 \<le> (1 / 2)\<^sup>2"
    using s3 by (intro power_mono) simp_all
  moreover have "((1 + 1 / 1000) / 2)\<^sup>2 + (1 / 2)\<^sup>2 \<le> (51::real) / 100"
    by (simp add: power2_eq_square)
  ultimately show ?thesis
    by (simp only: wa wb)
qed

lemma built_windowSum_interior:
  assumes "HopSize \<le> i" and "i < frames_of (max (length samples) FrameSize) * HopSize"
  shows "i < length (built_windowSum samples)"
    and "built_windowSum samples ! i =
      (HannWindow (int FrameSize) ! (i mod HopSize))\<^sup>2 +
      (HannWindow (int FrameSize) ! (i mod HopSize + HopSize))\<^sup>2"
proof -
  let ?n = "length (padded samples)"
  have hi: "i < frames_of ?n * HopSize"
    using assms(2) by (simp add: length_padded)
  have "i < ?n"
    using assms(1) hi by (rule windowSum_two_frames(2))
  then show "i < length (built_windowSum samples)"
    by (simp add: built_windowSum_eq)
  show "built_windowSum samples ! i =
      (HannWindow (int FrameSize) ! (i mod HopSize))\<^sup>2 +
      (HannWindow (int FrameSize) ! (i mod HopSize + HopSize))\<^sup>2"
    using windowSum_two_frames(1) [OF assms(1) hi] by (simp add: built_windowSum_eq windowSum_of_def)
qed

text \<open>
  Claim C1, as stated, fails: for an input of 4096 samples the index 1536 is interior
  (two frames overlap there), and the accumulated \<open>windowSum\<close> is at most \<open>0.51\<close>, far
  from \<open>0.5 * FrameSize / HopSize = 1\<close>. The squared Hann window is not constant under
  a 50% hop.
\<close>

theorem windowSum_not_constant:
  "HopSize \<le> 1536 \<and> 1536 < frames_of (max (length (replicate 4096 (0::real))) FrameSize) * HopSize \<and>
   1 / 10 ^ 9 < \<bar>built_windowSum (replicate 4096 0) ! 1536 - 0.5 * real FrameSize / real HopSize\<bar>"
proof -
  have lo: "HopSize \<le> 1536"
    by (simp add: HopSize_value)
  have hi: "1536 < frames_of (max (length (replicate 4096 (0::real))) FrameSize) * HopSize"
    by (simp add: frames_of_def HopSize_value FrameSize_def)
  have "built_windowSum (replicate 4096 0) ! 1536 =
      (HannWindow (int FrameSize) ! (1536 mod HopSize))\<^sup>2 +
      (HannWindow (int FrameSize) ! (1536 mod HopSize + HopSize))\<^sup>2"
    using lo hi by (rule built_windowSum_interior(2))
  also have "\<dots> = (HannWindow (int FrameSize) ! 512)\<^sup>2 + (HannWindow (int FrameSize) ! (512 + 1024))\<^sup>2"
    by (simp add: HopSize_value)
  also have "\<dots> \<le> 51 / 100"
    by (rule hann_pair_512)
  finally have "built_windowSum (replicate 4096 0) ! 1536 \<le> 51 / 100" .
  moreover have "0.5 * real FrameSize / real HopSize = 1"
    by (simp add: HopSize_value FrameSize_def)
  ultimately have "1 / 10 ^ 9 < \<bar>built_windowSum (replicate 4096 0) ! 1536 - 0.5 * real FrameSize / real HopSize\<bar>"
    by simp
  with lo hi show ?thesis
    by blast
qed

text \<open>
  Claim C1 (amended): step 2 of \<^verbatim>\<open>Denoise\<close> completes, and at every interior index \<open>i\<close>
  (\<open>HopSize \<le> i < totalFrames * HopSize\<close>, where exactly two frames overlap) the
  accumulated \<open>windowSum\<close> is \<open>window[j]\<^sup>2 + window[j + HopSize]\<^sup>2\<close> with
  \<open>j = i mod HopSize\<close>; this value lies between \<open>0.499\<close> and \<open>1\<close>.
\<close>

theorem windowSum_interior:
  assumes "HopSize \<le> i" and "i < frames_of (max (length samples) FrameSize) * HopSize"
  shows "(\<exists>n outp. accumulate samples = Inr (n, outp, built_windowSum samples)) \<and>
     i < length (built_windowSum samples) \<and>
     built_windowSum samples ! i =
       (HannWindow (int FrameSize) ! (i mod HopSize))\<^sup>2 +
       (HannWindow (int FrameSize) ! (i mod HopSize + HopSize))\<^sup>2 \<and>
     499 / 1000 \<le> built_windowSum samples ! i \<and> built_windowSum samples ! i \<le> 1"
proof -
  have run: "\<exists>n outp. accumulate samples = Inr (n, outp, built_windowSum samples)"
    using accumulate_run [of samples] by (auto simp: built_windowSum_eq)
  have j: "i mod HopSize < 1024"
    by (simp add: HopSize_value)
  have val: "built_windowSum samples ! i =
      (HannWindow (int FrameSize) ! (i mod HopSize))\<^sup>2 +
      (HannWindow (int FrameSize) ! (i mod HopSize + 1024))\<^sup>2"
    using built_windowSum_interior(2) [OF assms] by (simp add: HopSize_value)
  have "499 / 1000 \<le> built_windowSum samples ! i" "built_windowSum samples ! i \<le> 1"
    using hann_pair_bounds [OF j] by (simp_all only: val)
  then show ?thesis
    using run built_windowSum_interior [OF assms] by blast
qed

theorem windowSum_interior_witness:
  "1024 < length (built_windowSum (replicate 3072 0)) \<and>
   499 / 1000 \<le> built_windowSum (replicate 3072 0) ! 1024 \<and>
   built_windowSum (replicate 3072 0) ! 1024 \<le> 1"
proof -
  have lo: "HopSize \<le> 1024"
    by (simp add: HopSize_value)
  have hi: "1024 < frames_of (max (length (replicate 3072 (0::real))) FrameSize) * HopSize"
    by (simp add: frames_of_def HopSize_value FrameSize_def)
  from windowSum_interior [OF lo hi] show ?thesis
    by blast
qed

subsection \<open>The WAV codec\<close>

lemma u16_le16 [simp]: "u16 (le16 w) = w"
  unfolding u16_def le16_def
  by (rule bit_word_eqI) (auto simp: bit_simps)

lemma u32_le32 [simp]: "u32 (le32 w) = w"
  unfolding u32_def le32_def
proof (rule bit_word_eqI)
  fix n
  assume "n < LENGTH(32)"
  then have n: "n < 32"
    by simp
  consider "n < 8" | "8 \<le> n" "n < 16" | "16 \<le> n" "n < 24" | "24 \<le> n"
    by linarith
  then show "bit (ucast (([ucast w, ucast (drop_bit 8 w), ucast (drop_bit 16 w), ucast (drop_bit 24 w)] :: byte list) ! 0)
       OR push_bit 8 (ucast (([ucast w, ucast (drop_bit 8 w), ucast (drop_bit 16 w), ucast (drop_bit 24 w)] :: byte list) ! 1))
       OR push_bit 16 (ucast (([ucast w, ucast (drop_bit 8 w), ucast (drop_bit 16 w), ucast (drop_bit 24 w)] :: byte list) ! 2))
       OR push_bit 24 (ucast (([ucast w, ucast (drop_bit 8 w), ucast (drop_bit 16 w), ucast (drop_bit 24 w)] :: byte list) ! 3)) :: 32 word) n
       = bit w n"
    using n by cases (auto simp: bit_simps)
qed

lemma length_ascii [simp]: "length (ascii s) = length s"
  by (simp add: ascii_def)

lemma length_le16 [simp]: "length (le16 w) = 2"
  by (simp add: le16_def)

lemma length_le32 [simp]: "length (le32 w) = 4"
  by (simp add: le32_def)

lemma length_payload [simp]: "length (payload samples) = 2 * length samples"
  by (induction samples) (simp_all add: payload_def)

lemma payload_slice:
  "i < length samples \<Longrightarrow> slice_of (payload samples) (i * 2) (i * 2 + 2) = le16 (sample_i16 (samples ! i))"
proof (induction samples arbitrary: i)
  case Nil
  then show ?case by simp
next
  case (Cons s samples)
  show ?case
  proof (cases i)
    case 0
    then show ?thesis
      by (simp add: payload_def slice_of_def)
  next
    case (Suc j)
    then have "j < length samples"
      using Cons.prems by simp
    from Cons.IH [OF this] show ?thesis
      by (simp add: Suc payload_def slice_of_def)
  qed
qed

lemma WriteWAV_parts:
  "WriteWAV samples rate =
     ascii ''RIFF'' @ le32 (word_of_int (36 + int (length samples) * 2)) @ ascii ''WAVE''
     @ ascii ''fmt '' @ le32 16 @ le16 1 @ le16 1
     @ le32 (word_of_int rate) @ le32 (word_of_int (rate * 2))
     @ le16 2 @ le16 16
     @ ascii ''data'' @ le32 (word_of_int (int (length samples) * 2))
     @ payload samples"
  by (simp add: WriteWAV_def Let_def payload_def)

lemma length_WriteWAV: "length (WriteWAV samples rate) = 44 + 2 * length samples"
  by (simp add: WriteWAV_parts)

lemma WriteWAV_slices:
  "slice_of (WriteWAV samples rate) 0 4 = ascii ''RIFF''"
  "slice_of (WriteWAV samples rate) 8 12 = ascii ''WAVE''"
  "slice_of (WriteWAV samples rate) 12 16 = ascii ''fmt ''"
  "slice_of (WriteWAV samples rate) 16 20 = le32 16"
  "slice_of (WriteWAV samples rate) 20 22 = le16 1"
  "slice_of (WriteWAV samples rate) 22 24 = le16 1"
  "slice_of (WriteWAV samples rate) 24 28 = le32 (word_of_int rate)"
  "slice_of (WriteWAV samples rate) 34 36 = le16 16"
  "slice_of (WriteWAV samples rate) 36 40 = ascii ''data''"
  "slice_of (WriteWAV samples rate) 40 44 = le32 (word_of_int (int (length samples) * 2))"
  "slice_of (WriteWAV samples rate) 44 (44 + 2 * length samples) = payload samples"
  by (simp_all add: WriteWAV_parts slice_of_def)

lemma uint_rate:
  assumes "0 \<le> rate" "rate < 2 ^ 32"
  shows "uint (word_of_int rate :: 32 word) = rate"
  using assms by (simp add: uint_word_of_int take_bit_int_eq_self)

lemma unat_size:
  assumes "N < 2 ^ 31"
  shows "unat (word_of_int (int N * 2) :: 32 word) = 2 * N"
proof -
  have k: "0 \<le> int N * 2" "int N * 2 < 2 ^ LENGTH(32)"
    using assms by simp_all
  have "uint (word_of_int (int N * 2) :: 32 word) = take_bit LENGTH(32) (int N * 2)"
    by (rule uint_word_of_int_eq)
  also have "\<dots> = int N * 2"
    using k by (rule take_bit_int_eq_self)
  finally have "uint (word_of_int (int N * 2) :: 32 word) = int N * 2" .
  then have "nat (uint (word_of_int (int N * 2) :: 32 word)) = 2 * N"
    by (simp only:)
  then show ?thesis
    by (simp only: unat_eq_nat_uint)
qed

lemma chunks_end: "\<not> pos + 8 \<le> length data \<Longrightarrow> chunks data pos h p = Inr (h, p)"
  by (subst chunks.simps) simp

lemma chunks_data_step:
  assumes "pos + 8 \<le> length data"
    and "slice_of data pos (pos + 4) = ascii ''data''"
    and "unat (u32 (slice_of data (pos + 4) (pos + 8))) = sz"
    and "even sz" and "pos + 8 + sz \<le> length data"
  shows "chunks data pos h p = chunks data (pos + 8 + sz) h (Some (slice_of data (pos + 8) (pos + 8 + sz)))"
proof -
  have ne: "ascii ''data'' \<noteq> ascii ''fmt ''"
    by (simp add: ascii_def)
  show ?thesis
    using assms by (subst chunks.simps) (simp add: Let_def ne)
qed

lemma chunks_fmt_step:
  assumes "pos + 8 \<le> length data"
    and "slice_of data pos (pos + 4) = ascii ''fmt ''"
    and "unat (u32 (slice_of data (pos + 4) (pos + 8))) = 16"
    and "pos + 8 + 16 \<le> length data"
    and "u16 (slice_of data (pos + 8) (pos + 8 + 2)) = 1"
    and "uint (u16 (slice_of data (pos + 8 + 14) (pos + 8 + 16))) = 16"
  shows "chunks data pos h p =
      chunks data (pos + 8 + 16)
        (Some \<lparr>SampleRate = uint (u32 (slice_of data (pos + 8 + 4) (pos + 8 + 8))),
               NumChannels = uint (u16 (slice_of data (pos + 8 + 2) (pos + 8 + 4))),
               BitsPerSample = 16\<rparr>) p"
  using assms by (subst chunks.simps) (simp add: Let_def)

lemma chunks_WriteWAV:
  assumes len: "length samples < 2 ^ 31"
  shows "chunks (WriteWAV samples rate) 12 None None =
      Inr (Some \<lparr>SampleRate = uint (word_of_int rate :: 32 word), NumChannels = 1, BitsPerSample = 16\<rparr>,
           Some (payload samples))"
proof -
  let ?d = "WriteWAV samples rate"
  let ?h = "\<lparr>SampleRate = uint (word_of_int rate :: 32 word), NumChannels = 1, BitsPerSample = 16\<rparr>"
  let ?N = "length samples"
  have l: "length ?d = 44 + 2 * ?N"
    by (rule length_WriteWAV)
  have sz: "unat (word_of_nat ?N * 2 :: 32 word) = 2 * ?N"
    using unat_size [OF len] by simp
  have "chunks ?d 12 None None =
      chunks ?d (12 + 8 + 16)
        (Some \<lparr>SampleRate = uint (u32 (slice_of ?d (12 + 8 + 4) (12 + 8 + 8))),
               NumChannels = uint (u16 (slice_of ?d (12 + 8 + 2) (12 + 8 + 4))),
               BitsPerSample = 16\<rparr>) None"
    by (rule chunks_fmt_step) (simp_all add: l WriteWAV_slices)
  also have "\<dots> = chunks ?d 36 (Some ?h) None"
    by (simp add: WriteWAV_slices)
  also have "\<dots> = chunks ?d (36 + 8 + 2 * ?N) (Some ?h) (Some (slice_of ?d (36 + 8) (36 + 8 + 2 * ?N)))"
    by (rule chunks_data_step) (simp_all add: l WriteWAV_slices sz)
  also have "\<dots> = chunks ?d (44 + 2 * ?N) (Some ?h) (Some (payload samples))"
    by (simp add: WriteWAV_slices)
  also have "\<dots> = Inr (Some ?h, Some (payload samples))"
    by (rule chunks_end) (simp add: l)
  finally show ?thesis .
qed

lemma floor_half:
  fixes y :: real
  shows "real_of_int \<lfloor>y + 1 / 2\<rfloor> \<le> y + 1 / 2" and "y - 1 / 2 < real_of_int \<lfloor>y + 1 / 2\<rfloor>"
  by linarith+

lemma go_round_error: "\<bar>real_of_int (go_round x) - x\<bar> \<le> 1 / 2"
proof (cases "x \<ge> 0")
  case True
  then have g: "go_round x = \<lfloor>x + 1 / 2\<rfloor>"
    by (simp add: go_round_def)
  show ?thesis
    unfolding g using floor_half [of x] by linarith
next
  case False
  then have g: "go_round x = - \<lfloor>- x + 1 / 2\<rfloor>"
    by (simp add: go_round_def)
  show ?thesis
    unfolding g using floor_half [of "- x"] by (simp only: of_int_minus; linarith?)
qed

lemma go_round_range:
  assumes "- real_of_int b \<le> x" and "x \<le> real_of_int b"
  shows "- b \<le> go_round x \<and> go_round x \<le> b"
proof -
  have half: "0 \<le> \<lfloor>y + 1 / 2\<rfloor> \<and> \<lfloor>y + 1 / 2\<rfloor> \<le> b" if "0 \<le> y" "y \<le> real_of_int b" for y :: real
  proof -
    have "real_of_int 0 \<le> y + 1 / 2"
      using that by simp
    then have "0 \<le> \<lfloor>y + 1 / 2\<rfloor>"
      by (simp only: le_floor_iff)
    moreover have "y + 1 / 2 < real_of_int (b + 1)"
      using that by simp
    then have "\<lfloor>y + 1 / 2\<rfloor> < b + 1"
      by (simp only: floor_less_iff)
    ultimately show ?thesis
      by simp
  qed
  show ?thesis
  proof (cases "x \<ge> 0")
    case True
    then have g: "go_round x = \<lfloor>x + 1 / 2\<rfloor>"
      by (simp add: go_round_def)
    have "0 \<le> \<lfloor>x + 1 / 2\<rfloor> \<and> \<lfloor>x + 1 / 2\<rfloor> \<le> b"
      using True assms by (intro half) simp_all
    then show ?thesis
      unfolding g by linarith
  next
    case False
    then have g: "go_round x = - \<lfloor>- x + 1 / 2\<rfloor>"
      by (simp add: go_round_def)
    have "0 \<le> \<lfloor>- x + 1 / 2\<rfloor> \<and> \<lfloor>- x + 1 / 2\<rfloor> \<le> b"
      using False assms by (intro half) simp_all
    then show ?thesis
      unfolding g by linarith
  qed
qed

lemma quantised_range:
  assumes "- 1 \<le> s" and "s \<le> 1"
  shows "- 32768 \<le> quantised s \<and> quantised s \<le> 32767"
proof (cases "s \<ge> 0")
  case True
  have "- real_of_int 32767 \<le> s * 32767" "s * 32767 \<le> real_of_int 32767"
    using assms True by simp_all
  from go_round_range [OF this] show ?thesis
    using True by (simp add: quantised_def)
next
  case False
  have "- real_of_int 32768 \<le> s * 32768" "s * 32768 \<le> real_of_int 32768"
    using assms False by simp_all
  from go_round_range [OF this] have "- 32768 \<le> go_round (s * 32768)" "go_round (s * 32768) \<le> 32768"
    by simp_all
  moreover have "go_round (s * 32768) \<le> 0"
  proof -
    have "real_of_int \<lfloor>- (s * 32768) + 1 / 2\<rfloor> > real_of_int (- 1)"
      using floor_half [of "- (s * 32768)"] False by simp
    then have "\<lfloor>- (s * 32768) + 1 / 2\<rfloor> > - 1"
      by (simp only: of_int_less_iff)
    then show ?thesis
      using False by (simp add: go_round_def)
  qed
  ultimately show ?thesis
    using False by (simp add: quantised_def)
qed

lemma scaled_error:
  fixes k s :: real
  assumes "\<bar>k - s * 32768\<bar> \<le> 3 / 2"
  shows "\<bar>k / 32768 - s\<bar> \<le> 1 / 1000"
proof -
  have "k / 32768 - s = (k - s * 32768) / 32768"
    by (simp add: field_simps)
  then have "\<bar>k / 32768 - s\<bar> = \<bar>k - s * 32768\<bar> / 32768"
    by (simp only: abs_divide; simp?)
  also have "\<dots> \<le> (3 / 2) / 32768"
    using assms by (rule divide_right_mono) simp
  also have "\<dots> \<le> 1 / 1000"
    by simp
  finally show ?thesis .
qed

lemma quantised_error:
  assumes "- 1 \<le> s" and "s \<le> 1"
  shows "\<bar>real_of_int (quantised s) / 32768 - s\<bar> \<le> 1 / 1000"
proof (cases "s \<ge> 0")
  case True
  have "\<bar>real_of_int (go_round (s * 32767)) - s * 32767\<bar> \<le> 1 / 2"
    by (rule go_round_error)
  then have "\<bar>real_of_int (go_round (s * 32767)) - s * 32768\<bar> \<le> 3 / 2"
    using assms True by linarith
  then have "\<bar>real_of_int (go_round (s * 32767)) / 32768 - s\<bar> \<le> 1 / 1000"
    by (rule scaled_error)
  then show ?thesis
    using True by (simp only: quantised_def if_True)
next
  case False
  have "\<bar>real_of_int (go_round (s * 32768)) - s * 32768\<bar> \<le> 1 / 2"
    by (rule go_round_error)
  then have "\<bar>real_of_int (go_round (s * 32768)) - s * 32768\<bar> \<le> 3 / 2"
    by linarith
  then have "\<bar>real_of_int (go_round (s * 32768)) / 32768 - s\<bar> \<le> 1 / 1000"
    by (rule scaled_error)
  then show ?thesis
    using False by (simp only: quantised_def if_False)
qed

lemma sint_sample_i16:
  assumes "- 1 \<le> s" and "s \<le> 1"
  shows "sint (sample_i16 s) = quantised s"
proof -
  have "sample_i16 s = word_of_int (quantised s)"
    using assms by (simp add: sample_i16_def quantised_def Let_def)
  moreover have "sint (word_of_int (quantised s) :: 16 word) = signed_take_bit (LENGTH(16) - 1) (quantised s)"
    by (rule sint_sbintrunc')
  moreover have "signed_take_bit 15 (quantised s) = quantised s"
    using quantised_range [OF assms] by (intro signed_take_bit_int_eq_self) simp_all
  ultimately show ?thesis
    by simp
qed

lemma ReadWAV_WriteWAV:
  assumes "length samples < 2 ^ 31"
  shows "ReadWAV (WriteWAV samples rate) =
      Inr (map (\<lambda>s. real_of_int (sint (sample_i16 s)) / 32768) samples,
           uint (word_of_int rate :: 32 word))"
proof -
  have raw: "map (\<lambda>i. real_of_int (sint (u16 (slice_of (payload samples) (i * 2) (i * 2 + 2)))) / 32768)
      [0..<length samples] =
      map (\<lambda>s. real_of_int (sint (sample_i16 s)) / 32768) samples"
  proof (rule nth_equalityI)
    show "length (map (\<lambda>i. real_of_int (sint (u16 (slice_of (payload samples) (i * 2) (i * 2 + 2)))) / 32768)
        [0..<length samples]) = length (map (\<lambda>s. real_of_int (sint (sample_i16 s)) / 32768) samples)"
      by simp
  next
    fix i
    assume "i < length (map (\<lambda>i. real_of_int (sint (u16 (slice_of (payload samples) (i * 2) (i * 2 + 2)))) / 32768)
        [0..<length samples])"
    then have i: "i < length samples"
      by simp
    have "u16 (slice_of (payload samples) (i * 2) (i * 2 + 2)) = sample_i16 (samples ! i)"
      using i by (simp only: payload_slice u16_le16)
    then show "map (\<lambda>i. real_of_int (sint (u16 (slice_of (payload samples) (i * 2) (i * 2 + 2)))) / 32768)
        [0..<length samples] ! i = map (\<lambda>s. real_of_int (sint (sample_i16 s)) / 32768) samples ! i"
      using i by simp
  qed
  have "ReadWAV (WriteWAV samples rate) =
      Inr (map (\<lambda>i. real_of_int (sint (u16 (slice_of (payload samples) (i * 2) (i * 2 + 2)))) / 32768)
             [0..<length samples], uint (word_of_int rate :: 32 word))"
    by (simp add: ReadWAV_def length_WriteWAV WriteWAV_slices chunks_WriteWAV [OF assms] del: upt_Suc)
  then show ?thesis
    by (simp only: raw)
qed

text \<open>
  Claim C10, as stated for every sample rate, fails for a rate that does not fit the
  32-bit field of the format: \<open>2 ^ 32\<close> Hz is written as \<open>0\<close> and read back as \<open>0\<close>.
\<close>

theorem WAV_rate_truncated: "ReadWAV (WriteWAV [] 4294967296) = Inr ([], 0)"
proof -
  have "uint (word_of_int 4294967296 :: 32 word) = 0"
    by simp
  then show ?thesis
    using ReadWAV_WriteWAV [of "[]" 4294967296] by simp
qed

text \<open>
  Claim C10 (amended): for a sample rate in \<open>[0, 2 ^ 32)\<close>, fewer than \<open>2 ^ 31\<close>
  samples and every sample in \<open>[-1, 1]\<close>, \<^verbatim>\<open>ReadWAV\<close> succeeds on the bytes that
  \<^verbatim>\<open>WriteWAV\<close> produces and returns the same sample rate, the same number of samples,
  and every sample within \<open>0.001\<close> of the original.
\<close>

theorem WAV_roundtrip:
  assumes "0 \<le> rate" and "rate < 2 ^ 32" and "length samples < 2 ^ 31"
    and "\<forall>s\<in>set samples. - 1 \<le> s \<and> s \<le> 1"
  shows "\<exists>recovered. ReadWAV (WriteWAV samples rate) = Inr (recovered, rate) \<and>
     length recovered = length samples \<and>
     (\<forall>i<length samples. \<bar>recovered ! i - samples ! i\<bar> \<le> 1 / 1000)"
proof -
  let ?r = "map (\<lambda>s. real_of_int (sint (sample_i16 s)) / 32768) samples"
  have "ReadWAV (WriteWAV samples rate) = Inr (?r, rate)"
    using ReadWAV_WriteWAV [OF assms(3)] uint_rate [OF assms(1,2)] by simp
  moreover have "\<bar>?r ! i - samples ! i\<bar> \<le> 1 / 1000" if "i < length samples" for i
  proof -
    have "- 1 \<le> samples ! i" "samples ! i \<le> 1"
      using assms(4) that by simp_all
    then have "\<bar>real_of_int (sint (sample_i16 (samples ! i))) / 32768 - samples ! i\<bar> \<le> 1 / 1000"
      using quantised_error [of "samples ! i"] by (simp only: sint_sample_i16)
    then show ?thesis
      using that by (simp only: nth_map)
  qed
  ultimately show ?thesis
    by auto
qed

theorem WAV_roundtrip_witness:
  "\<exists>recovered. ReadWAV (WriteWAV [1 / 2, - 1] 44100) = Inr (recovered, 44100) \<and>
     length recovered = 2"
proof -
  have "\<exists>recovered. ReadWAV (WriteWAV [1 / 2, - 1] 44100) = Inr (recovered, 44100) \<and>
     length recovered = length [1 / 2, - 1 :: real] \<and>
     (\<forall>i<length [1 / 2, - 1 :: real]. \<bar>recovered ! i - [1 / 2, - 1] ! i\<bar> \<le> 1 / 1000)"
    by (rule WAV_roundtrip) simp_all
  then show ?thesis
    by auto
qed

subsection \<open>The store\<close>

lemma keeps_refl [simp]: "keeps A \<sigma> \<sigma>"
  by (simp add: keeps_def)

lemma keeps_trans: "keeps A \<sigma>1 \<sigma>2 \<Longrightarrow> keeps A \<sigma>2 \<sigma>3 \<Longrightarrow> keeps A \<sigma>1 \<sigma>3"
  by (auto simp: keeps_def)

lemma keeps_mono: "keeps A \<sigma> \<sigma>' \<Longrightarrow> A \<subseteq> B \<Longrightarrow> keeps B \<sigma> \<sigma>'"
  by (auto simp: keeps_def)

lemma keeps_reals: "keeps A \<sigma> \<sigma>' \<Longrightarrow> a < fresh \<sigma> \<Longrightarrow> a \<notin> A \<Longrightarrow> reals \<sigma>' a = reals \<sigma> a"
  by (simp add: keeps_def)

lemma keeps_cplxs: "keeps A \<sigma> \<sigma>' \<Longrightarrow> a < fresh \<sigma> \<Longrightarrow> a \<notin> A \<Longrightarrow> cplxs \<sigma>' a = cplxs \<sigma> a"
  by (simp add: keeps_def)

lemma keeps_fresh: "keeps A \<sigma> \<sigma>' \<Longrightarrow> a < fresh \<sigma> \<Longrightarrow> a < fresh \<sigma>'"
  by (simp add: keeps_def)

lemma set_r_simps [simp]:
  "reals (set_r \<sigma> a ys) a = ys"
  "b \<noteq> a \<Longrightarrow> reals (set_r \<sigma> a ys) b = reals \<sigma> b"
  "cplxs (set_r \<sigma> a ys) = cplxs \<sigma>"
  "fresh (set_r \<sigma> a ys) = fresh \<sigma>"
  "set_r (set_r \<sigma> a ys) a zs = set_r \<sigma> a zs"
  "set_r \<sigma> a (reals \<sigma> a) = \<sigma>"
  by (simp_all add: set_r_def)

lemma set_c_simps [simp]:
  "cplxs (set_c \<sigma> a ys) a = ys"
  "b \<noteq> a \<Longrightarrow> cplxs (set_c \<sigma> a ys) b = cplxs \<sigma> b"
  "reals (set_c \<sigma> a ys) = reals \<sigma>"
  "fresh (set_c \<sigma> a ys) = fresh \<sigma>"
  "set_c (set_c \<sigma> a ys) a zs = set_c \<sigma> a zs"
  "set_c \<sigma> a (cplxs \<sigma> a) = \<sigma>"
  by (simp_all add: set_c_def)

lemma keeps_set_r: "keeps {a} \<sigma> (set_r \<sigma> a ys)"
  by (simp add: keeps_def)

lemma keeps_set_c: "keeps {a} \<sigma> (set_c \<sigma> a ys)"
  by (simp add: keeps_def)

lemma keeps_set_r_new: "fresh \<sigma> \<le> a \<Longrightarrow> keeps {} \<sigma> (set_r \<sigma> a ys)"
  by (auto simp: keeps_def)

lemma keeps_set_c_new: "fresh \<sigma> \<le> a \<Longrightarrow> keeps {} \<sigma> (set_c \<sigma> a ys)"
  by (auto simp: keeps_def)

lemma new_r_facts:
  assumes "new_r ys \<sigma> = (a, \<sigma>')"
  shows "a = fresh \<sigma>" "fresh \<sigma>' = Suc (fresh \<sigma>)" "reals \<sigma>' a = ys" "keeps {} \<sigma> \<sigma>'"
  using assms by (auto simp: new_r_def keeps_def)

lemma new_c_facts:
  assumes "new_c ys \<sigma> = (a, \<sigma>')"
  shows "a = fresh \<sigma>" "fresh \<sigma>' = Suc (fresh \<sigma>)" "cplxs \<sigma>' a = ys" "keeps {} \<sigma> \<sigma>'"
  using assms by (auto simp: new_c_def keeps_def)

lemma bindE_assoc: "bindE (bindE m f) g = bindE m (\<lambda>x. bindE (f x) g)"
  by (cases m) simp_all

lemma foldE_emb:
  assumes "\<And>i t. i \<in> set is \<Longrightarrow> f i (emb t) = bindE (g i t) (\<lambda>t'. Inr (emb t'))"
  shows "foldE f is (emb t) = bindE (foldE g is t) (\<lambda>t'. Inr (emb t'))"
  using assms
proof (induction "is" arbitrary: t)
  case Nil
  show ?case by simp
next
  case (Cons i "is")
  show ?case
  proof (cases "g i t")
    case (Inl e)
    then show ?thesis
      using Cons.prems [of i t] by simp
  next
    case (Inr t')
    then have "f i (emb t) = Inr (emb t')"
      using Cons.prems [of i t] by simp
    moreover have "foldE f is (emb t') = bindE (foldE g is t') (\<lambda>t'. Inr (emb t'))"
      using Cons.prems by (intro Cons.IH) simp
    ultimately show ?thesis
      using Inr by simp
  qed
qed

lemma rd_wr_set [simp]:
  "rd_c (set_c \<sigma> a xs) a i = idx xs i"
  "wr_c (set_c \<sigma> a xs) a i v = bindE (upd xs i v) (\<lambda>ys. Inr (set_c \<sigma> a ys))"
  "rd_r (set_r \<sigma> a rs) a i = idx rs i"
  "wr_r (set_r \<sigma> a rs) a i w = bindE (upd rs i w) (\<lambda>ys. Inr (set_r \<sigma> a ys))"
  by (simp_all add: rd_c_def wr_c_def rd_r_def wr_r_def)

subsection \<open>The transform on the store\<close>

lemma swap_step_st_eq:
  "swap_step_st bits a i (set_c \<sigma> a xs) = bindE (swap_step bits i xs) (\<lambda>ys. Inr (set_c \<sigma> a ys))"
  by (simp add: swap_step_st_def swap_step_def Let_def bindE_assoc)

lemma bitReverse_st_eq:
  "bitReverse_st a (set_c \<sigma> a xs) = bindE (bitReverse xs) (\<lambda>ys. Inr (set_c \<sigma> a ys))"
  unfolding bitReverse_st_def bitReverse_def Let_def
  by (simp only: set_c_simps) (rule foldE_emb, rule swap_step_st_eq)

lemma butterfly_st_eq:
  "butterfly_st m wm a k j (set_c \<sigma> a xs, w) =
     bindE (butterfly m wm k j (xs, w)) (\<lambda>(ys, w'). Inr (set_c \<sigma> a ys, w'))"
  by (simp add: butterfly_st_def butterfly_def Let_def bindE_assoc)

lemma span_st_eq:
  "span_st m wm a k (set_c \<sigma> a xs) = bindE (span m wm k xs) (\<lambda>ys. Inr (set_c \<sigma> a ys))"
proof -
  have "foldE (butterfly_st m wm a k) [0..<m div 2] (case (xs, 1) of (ys, w') \<Rightarrow> (set_c \<sigma> a ys, w')) =
      bindE (foldE (butterfly m wm k) [0..<m div 2] (xs, 1))
        (\<lambda>t'. Inr (case t' of (ys, w') \<Rightarrow> (set_c \<sigma> a ys, w')))"
    by (rule foldE_emb) (auto simp: butterfly_st_eq split_def)
  then show ?thesis
    by (simp add: span_st_def span_def bindE_assoc split_def)
qed

lemma spans_st_eq:
  "spans_st n s wm a k (set_c \<sigma> a xs) = bindE (spans n s wm k xs) (\<lambda>ys. Inr (set_c \<sigma> a ys))"
proof (induction n s wm k xs rule: spans.induct)
  case (1 n s wm k out)
  show ?case
  proof (cases "k < n")
    case False
    then show ?thesis
      by (simp add: spans.simps [of n s wm k out] spans_st.simps [of n s wm a k])
  next
    case True
    show ?thesis
    proof (cases "span (2 ^ s) wm k out")
      case (Inl e)
      then show ?thesis
        using True
        by (simp add: spans.simps [of n s wm k out] spans_st.simps [of n s wm a k] span_st_eq)
    next
      case (Inr out')
      then show ?thesis
        using True "1.IH" [OF True Inr]
        by (simp add: spans.simps [of n s wm k out] spans_st.simps [of n s wm a k] span_st_eq)
    qed
  qed
qed

lemma stage_st_eq:
  "stage_st n a s (set_c \<sigma> a xs) = bindE (stage n s xs) (\<lambda>ys. Inr (set_c \<sigma> a ys))"
  by (simp only: stage_st_def stage_def Let_def spans_st_eq)

lemma new_c_set [simp]:
  "a = fresh \<sigma> \<Longrightarrow> set_c (snd (new_c zs \<sigma>)) a ys = snd (new_c ys \<sigma>)"
  by (simp add: new_c_def set_c_def)

lemma new_r_set [simp]:
  "a = fresh \<sigma> \<Longrightarrow> set_r (snd (new_r zs \<sigma>)) a ys = snd (new_r ys \<sigma>)"
  by (simp add: new_r_def set_r_def)

lemma new_c_sel [simp]:
  "fst (new_c ys \<sigma>) = fresh \<sigma>"
  "fresh (snd (new_c ys \<sigma>)) = Suc (fresh \<sigma>)"
  "a = fresh \<sigma> \<Longrightarrow> cplxs (snd (new_c ys \<sigma>)) a = ys"
  "a \<noteq> fresh \<sigma> \<Longrightarrow> cplxs (snd (new_c ys \<sigma>)) a = cplxs \<sigma> a"
  "reals (snd (new_c ys \<sigma>)) = reals \<sigma>"
  by (simp_all add: new_c_def)

lemma new_r_sel [simp]:
  "fst (new_r ys \<sigma>) = fresh \<sigma>"
  "fresh (snd (new_r ys \<sigma>)) = Suc (fresh \<sigma>)"
  "a = fresh \<sigma> \<Longrightarrow> reals (snd (new_r ys \<sigma>)) a = ys"
  "a \<noteq> fresh \<sigma> \<Longrightarrow> reals (snd (new_r ys \<sigma>)) a = reals \<sigma> a"
  "cplxs (snd (new_r ys \<sigma>)) = cplxs \<sigma>"
  by (simp_all add: new_r_def)

lemma keeps_new_c [simp]: "keeps A \<sigma> (snd (new_c ys \<sigma>))"
  by (simp add: keeps_def)

lemma keeps_new_r [simp]: "keeps A \<sigma> (snd (new_r ys \<sigma>))"
  by (simp add: keeps_def)

lemma copy_slice_same_length: "length dst = length src \<Longrightarrow> copy_slice dst src = src"
  by (simp add: copy_slice_def)

lemma stages_st_eq:
  "foldE (stage_st n a) ss (set_c \<sigma> a xs) = bindE (foldE (stage n) ss xs) (\<lambda>ys. Inr (set_c \<sigma> a ys))"
  by (rule foldE_emb) (rule stage_st_eq)

lemma FFT_st_Some:
  assumes "a < fresh \<sigma>" and "cplxs \<sigma> a \<noteq> []"
  shows "FFT_st (Some a) \<sigma> =
     bindE (FFT (cplxs \<sigma> a)) (\<lambda>ys. Inr (Some (fresh \<sigma>), snd (new_c ys \<sigma>)))"
proof -
  let ?xs = "cplxs \<sigma> a"
  let ?n = "length ?xs"
  let ?\<sigma>1 = "snd (new_c (replicate ?n 0) \<sigma>)"
  have n0: "?n \<noteq> 0"
    using assms(2) by simp
  have a: "a \<noteq> fresh \<sigma>"
    using assms(1) by simp
  show ?thesis
  proof (cases "isPowerOf2 (int ?n)")
    case False
    then show ?thesis
      using n0 by (simp add: FFT_st_def FFT_def contents_c_def Let_def)
  next
    case True
    have copy: "copy_slice (cplxs ?\<sigma>1 (fresh \<sigma>)) (cplxs ?\<sigma>1 a) = ?xs"
      using a by (simp add: copy_slice_same_length)
    have "FFT_st (Some a) \<sigma> =
        bindE (bitReverse_st (fresh \<sigma>) (set_c ?\<sigma>1 (fresh \<sigma>) ?xs)) (\<lambda>\<sigma>3.
        bindE (foldE (stage_st ?n (fresh \<sigma>)) [1..<Suc (ilog2 ?n)] \<sigma>3) (\<lambda>\<sigma>4.
        Inr (Some (fresh \<sigma>), \<sigma>4)))"
      using n0 True copy by (simp add: FFT_st_def contents_c_def Let_def split_def)
    also have "\<dots> = bindE (bitReverse ?xs) (\<lambda>ys.
        bindE (foldE (stage ?n) [1..<Suc (ilog2 ?n)] ys) (\<lambda>zs.
        Inr (Some (fresh \<sigma>), set_c ?\<sigma>1 (fresh \<sigma>) zs)))"
      by (simp only: bitReverse_st_eq bindE_assoc bindE_Inr stages_st_eq)
    also have "\<dots> = bindE (FFT ?xs) (\<lambda>ys. Inr (Some (fresh \<sigma>), snd (new_c ys \<sigma>)))"
      using n0 True by (simp add: FFT_def Let_def bindE_assoc)
    finally show ?thesis .
  qed
qed

lemma FFT_st_empty: "contents_c \<sigma> x = [] \<Longrightarrow> FFT_st x \<sigma> = Inr (None, \<sigma>)"
  by (simp add: FFT_st_def)

lemma IFFT_st_Some:
  assumes "a < fresh \<sigma>" and "cplxs \<sigma> a \<noteq> []"
  shows "IFFT_st (Some a) \<sigma> =
     bindE (IFFT (cplxs \<sigma> a)) (\<lambda>ys.
       Inr (Some (Suc (fresh \<sigma>)), snd (new_c ys (snd (new_c (map cnj (cplxs \<sigma> a)) \<sigma>)))))"
proof -
  let ?xs = "cplxs \<sigma> a"
  let ?n = "length ?xs"
  let ?\<sigma>2 = "snd (new_c (map cnj ?xs) \<sigma>)"
  have n0: "?n \<noteq> 0"
    using assms(2) by simp
  have a: "a \<noteq> fresh \<sigma>"
    using assms(1) by simp
  have fft: "FFT_st (Some (fresh \<sigma>)) ?\<sigma>2 =
      bindE (FFT (cplxs ?\<sigma>2 (fresh \<sigma>))) (\<lambda>ys. Inr (Some (fresh ?\<sigma>2), snd (new_c ys ?\<sigma>2)))"
    using assms(2) by (intro FFT_st_Some) simp_all
  have "IFFT_st (Some a) \<sigma> =
      bindE (FFT_st (Some (fresh \<sigma>)) ?\<sigma>2) (\<lambda>(result, \<sigma>3).
        case result of
          None \<Rightarrow> Inr (None, \<sigma>3)
        | Some r \<Rightarrow> Inr (Some r, set_c \<sigma>3 r (map (\<lambda>v. cnj v / Complex (real ?n) 0) (cplxs \<sigma>3 r))))"
    using n0 a by (simp add: IFFT_st_def contents_c_def Let_def split_def)
  also have "\<dots> = bindE (FFT (map cnj ?xs)) (\<lambda>ys.
      Inr (Some (Suc (fresh \<sigma>)), snd (new_c (map (\<lambda>v. cnj v / Complex (real ?n) 0) ys) ?\<sigma>2)))"
    by (simp add: fft bindE_assoc)
  also have "\<dots> = bindE (IFFT ?xs) (\<lambda>ys. Inr (Some (Suc (fresh \<sigma>)), snd (new_c ys ?\<sigma>2)))"
    using n0 by (simp add: IFFT_def Let_def bindE_assoc)
  finally show ?thesis .
qed

lemma IFFT_st_empty: "contents_c \<sigma> x = [] \<Longrightarrow> IFFT_st x \<sigma> = Inr (None, \<sigma>)"
  by (simp add: IFFT_st_def)

subsection \<open>Runs on the store and runs of the pure model\<close>

lemma sim_Inl [simp]: "sim R m (Inl e) \<longleftrightarrow> m = Inl e"
  by (simp add: sim_def)

lemma sim_Inr_iff: "sim R m (Inr y) \<longleftrightarrow> (\<exists>b. m = Inr b \<and> R y b)"
  by (cases m) (simp_all add: sim_def)

lemma sim_Inr [simp]: "sim R (Inr b) (Inr y) \<longleftrightarrow> R y b"
  by (simp add: sim_def)

lemma sim_bind:
  assumes "sim R m p" and "\<And>y b. p = Inr y \<Longrightarrow> m = Inr b \<Longrightarrow> R y b \<Longrightarrow> sim Q (f b) (g y)"
  shows "sim Q (bindE m f) (bindE p g)"
proof (cases p)
  case (Inl e)
  then show ?thesis
    using assms(1) by simp
next
  case (Inr y)
  then obtain b where "m = Inr b" and "R y b"
    using assms(1) by (auto simp: sim_Inr_iff)
  then show ?thesis
    using assms(2) Inr by simp
qed

lemma sim_bind_same:
  assumes "\<And>y. p = Inr y \<Longrightarrow> sim Q (f y) (g y)"
  shows "sim Q (bindE p f) (bindE p g)"
  using assms by (cases p) simp_all

lemma sim_mono:
  assumes "sim R m p" and "\<And>y b. p = Inr y \<Longrightarrow> m = Inr b \<Longrightarrow> R y b \<Longrightarrow> Q y b"
  shows "sim Q m p"
proof (cases p)
  case (Inl e)
  then show ?thesis
    using assms(1) by simp
next
  case (Inr y)
  then show ?thesis
    using assms by (auto simp: sim_Inr_iff)
qed

lemma sim_emb:
  assumes "m = bindE p (\<lambda>y. Inr (h y))" and "\<And>y. p = Inr y \<Longrightarrow> R y (h y)"
  shows "sim R m p"
  using assms by (cases p) simp_all

lemma sim_foldE:
  assumes "\<And>i s b. i \<in> set is \<Longrightarrow> R s b \<Longrightarrow> sim R (f i b) (g i s)" and "R s b"
  shows "sim R (foldE f is b) (foldE g is s)"
  using assms
proof (induction "is" arbitrary: s b)
  case Nil
  then show ?case by simp
next
  case (Cons i "is")
  have "sim R (f i b) (g i s)"
    using Cons.prems by simp
  then have "sim R (bindE (f i b) (foldE f is)) (bindE (g i s) (foldE g is))"
  proof (rule sim_bind)
    fix y c
    assume "R y c"
    then show "sim R (foldE f is c) (foldE g is y)"
      using Cons.prems(1) by (intro Cons.IH) simp_all
  qed
  then show ?case by simp
qed

lemma result_c_new: "a = fresh \<sigma> \<Longrightarrow> result_c \<sigma> ys (Some a, snd (new_c ys \<sigma>))"
  by (simp add: result_c_def contents_c_def)

lemma result_c_trans:
  assumes "keeps {} \<sigma> \<sigma>1" and "result_c \<sigma>1 ys p"
  shows "result_c \<sigma> ys p"
proof -
  obtain r \<sigma>' where p: "p = (r, \<sigma>')"
    by (cases p)
  have "fresh \<sigma> \<le> fresh \<sigma>1"
    using assms(1) by (simp add: keeps_def)
  then show ?thesis
    using assms keeps_trans [of "{}" \<sigma> \<sigma>1 \<sigma>']
    by (auto simp: result_c_def p split: option.splits)
qed

lemma FFT_nil [simp]: "FFT [] = Inr []"
  by (simp add: FFT_def)

lemma IFFT_nil [simp]: "IFFT [] = Inr []"
  by (simp add: IFFT_def)

lemma contents_simps [simp]:
  "contents_c \<sigma> None = []" "contents_c \<sigma> (Some a) = cplxs \<sigma> a"
  "contents_r \<sigma> None = []" "contents_r \<sigma> (Some a) = reals \<sigma> a"
  by (simp_all add: contents_c_def contents_r_def)

lemma FFT_st_sim:
  assumes "valid \<sigma> x"
  shows "sim (result_c \<sigma>) (FFT_st x \<sigma>) (FFT (contents_c \<sigma> x))"
proof (cases "contents_c \<sigma> x = []")
  case True
  then show ?thesis
    by (simp add: FFT_st_empty result_c_def split: option.splits)
next
  case False
  then obtain a where x: "x = Some a"
    by (cases x) simp_all
  have "FFT_st (Some a) \<sigma> =
      bindE (FFT (cplxs \<sigma> a)) (\<lambda>ys. Inr (Some (fresh \<sigma>), snd (new_c ys \<sigma>)))"
    using assms False by (intro FFT_st_Some) (simp_all add: x valid_def)
  then show ?thesis
    unfolding x contents_simps by (rule sim_emb) (simp add: result_c_new)
qed

lemma IFFT_st_sim:
  assumes "valid \<sigma> x"
  shows "sim (result_c \<sigma>) (IFFT_st x \<sigma>) (IFFT (contents_c \<sigma> x))"
proof (cases "contents_c \<sigma> x = []")
  case True
  then show ?thesis
    by (simp add: IFFT_st_empty result_c_def split: option.splits)
next
  case False
  then obtain a where x: "x = Some a"
    by (cases x) simp_all
  have "IFFT_st (Some a) \<sigma> =
     bindE (IFFT (cplxs \<sigma> a)) (\<lambda>ys.
       Inr (Some (Suc (fresh \<sigma>)), snd (new_c ys (snd (new_c (map cnj (cplxs \<sigma> a)) \<sigma>)))))"
    using assms False by (intro IFFT_st_Some) (simp_all add: x valid_def)
  then show ?thesis
    unfolding x contents_simps
  proof (rule sim_emb)
    fix ys
    have "result_c (snd (new_c (map cnj (cplxs \<sigma> a)) \<sigma>)) ys
       (Some (Suc (fresh \<sigma>)), snd (new_c ys (snd (new_c (map cnj (cplxs \<sigma> a)) \<sigma>))))"
      by (rule result_c_new) simp
    then show "result_c \<sigma> ys
       (Some (Suc (fresh \<sigma>)), snd (new_c ys (snd (new_c (map cnj (cplxs \<sigma> a)) \<sigma>))))"
      by (rule result_c_trans [rotated]) simp
  qed
qed

subsection \<open>The pipeline on the store\<close>

lemma extractFrame_st_eq:
  assumes "src < fresh \<sigma>"
  shows "extractFrame_st src start sz \<sigma> =
     bindE (extractFrame (reals \<sigma> src) start sz) (\<lambda>ys. Inr (fresh \<sigma>, snd (new_r ys \<sigma>)))"
proof -
  have "src \<noteq> fresh \<sigma>"
    using assms by simp
  then show ?thesis
    by (simp add: extractFrame_st_def extractFrame_def Let_def split_def)
qed

lemma applyWindow_st_eq:
  assumes "frame \<noteq> window"
  shows "applyWindow_st frame window \<sigma> =
     bindE (applyWindow (reals \<sigma> frame) (reals \<sigma> window)) (\<lambda>ys. Inr (set_r \<sigma> frame ys))"
proof -
  let ?f = "\<lambda>i \<sigma>. bindE (rd_r \<sigma> frame i) (\<lambda>v. bindE (rd_r \<sigma> window i) (\<lambda>w. wr_r \<sigma> frame i (v * w)))"
  let ?g = "\<lambda>i fr. bindE (idx fr i) (\<lambda>v. bindE (idx (reals \<sigma> window) i) (\<lambda>w. upd fr i (v * w)))"
  have w: "rd_r (set_r \<sigma> frame t) window i = idx (reals \<sigma> window) i" for t i
    using assms by (simp add: rd_r_def)
  have "foldE ?f [0..<length (reals \<sigma> frame)] (set_r \<sigma> frame (reals \<sigma> frame)) =
      bindE (foldE ?g [0..<length (reals \<sigma> frame)] (reals \<sigma> frame)) (\<lambda>ys. Inr (set_r \<sigma> frame ys))"
    by (rule foldE_emb) (simp add: w bindE_assoc)
  then show ?thesis
    by (simp add: applyWindow_st_def applyWindow_def)
qed

lemma frame_spectrum_st_sim:
  assumes "samples < fresh \<sigma>" and "window < fresh \<sigma>"
  shows "sim (result_c \<sigma>) (frame_spectrum_st samples window fi \<sigma>)
           (frame_spectrum (reals \<sigma> samples) (reals \<sigma> window) fi)"
proof -
  have w: "fresh \<sigma> \<noteq> window" "window \<noteq> fresh \<sigma>"
    using assms(2) by simp_all
  have eq: "frame_spectrum_st samples window fi \<sigma> =
      bindE (extractFrame (reals \<sigma> samples) (int (fi * HopSize)) (int FrameSize)) (\<lambda>frame0.
      bindE (applyWindow frame0 (reals \<sigma> window)) (\<lambda>frame.
      FFT_st (Some (Suc (fresh \<sigma>))) (snd (new_c (realToComplex frame) (snd (new_r frame \<sigma>))))))"
    using w
    by (simp add: frame_spectrum_st_def Let_def extractFrame_st_eq [OF assms(1)] bindE_assoc
        applyWindow_st_eq split_def)
  show ?thesis
    unfolding eq frame_spectrum_def Let_def
  proof (intro sim_bind_same)
    fix frame0 frame
    let ?\<sigma>3 = "snd (new_c (realToComplex frame) (snd (new_r frame \<sigma>)))"
    have "sim (result_c ?\<sigma>3) (FFT_st (Some (Suc (fresh \<sigma>))) ?\<sigma>3)
        (FFT (contents_c ?\<sigma>3 (Some (Suc (fresh \<sigma>)))))"
      by (rule FFT_st_sim) (simp add: valid_def)
    then have fft: "sim (result_c ?\<sigma>3) (FFT_st (Some (Suc (fresh \<sigma>))) ?\<sigma>3) (FFT (realToComplex frame))"
      by simp
    have k: "keeps {} \<sigma> ?\<sigma>3"
      by (rule keeps_trans [of _ _ "snd (new_r frame \<sigma>)"]) simp_all
    from fft show "sim (result_c \<sigma>) (FFT_st (Some (Suc (fresh \<sigma>))) ?\<sigma>3) (FFT (realToComplex frame))"
    proof (rule sim_mono)
      fix y b
      assume "result_c ?\<sigma>3 y b"
      then show "result_c \<sigma> y b"
        by (rule result_c_trans [OF k])
    qed
  qed
qed

lemma keeps_new:
  assumes "keeps {} \<sigma> \<sigma>1" and "keeps A \<sigma>1 \<sigma>2" and "\<And>a. a \<in> A \<Longrightarrow> fresh \<sigma> \<le> a"
  shows "keeps {} \<sigma> \<sigma>2"
  unfolding keeps_def
proof (intro conjI allI impI)
  show "fresh \<sigma> \<le> fresh \<sigma>2"
    using assms(1,2) by (simp add: keeps_def)
next
  fix a
  assume a: "a < fresh \<sigma>"
  then have "a \<notin> A"
    using assms(3) [of a] by auto
  moreover have "a < fresh \<sigma>1"
    using a assms(1) by (simp add: keeps_def)
  ultimately have "reals \<sigma>2 a = reals \<sigma>1 a" "cplxs \<sigma>2 a = cplxs \<sigma>1 a"
    using assms(2) by (simp_all add: keeps_def)
  then show "reals \<sigma>2 a = reals \<sigma> a" "cplxs \<sigma>2 a = cplxs \<sigma> a"
    using a assms(1) by (simp_all add: keeps_def)
qed

lemma contents_c_set_r [simp]: "contents_c (set_r \<sigma> a t) r = contents_c \<sigma> r"
  by (cases r) simp_all

lemma rd_result_set_r [simp]: "rd_result (set_r \<sigma> a t) r k = rd_result \<sigma> r k"
  by (cases r) (simp_all add: rd_result_def)

lemma rd_r_set_c [simp]: "rd_r (set_c \<sigma> a t) b k = rd_r \<sigma> b k"
  by (simp add: rd_r_def)

lemma rd_result_set_c [simp]: "rd_result (set_c \<sigma> a t) (Some a) k = idx t k"
  by (simp add: rd_result_def)

lemma noise_frame_st_sim:
  assumes "samples < fresh \<sigma>" and "window < fresh \<sigma>" and "noiseMag < fresh \<sigma>"
  shows "sim (\<lambda>nm \<sigma>'. keeps {noiseMag} \<sigma> \<sigma>' \<and> reals \<sigma>' noiseMag = nm)
           (noise_frame_st samples window noiseMag fi \<sigma>)
           (noise_frame (reals \<sigma> samples) (reals \<sigma> window) fi (reals \<sigma> noiseMag))"
  unfolding noise_frame_st_def noise_frame_def
proof (rule sim_bind [OF frame_spectrum_st_sim [OF assms(1,2)]])
  fix ys and b :: "nat option \<times> store"
  assume res: "result_c \<sigma> ys b"
  obtain r \<sigma>1 where b: "b = (r, \<sigma>1)"
    by (cases b)
  have k: "keeps {} \<sigma> \<sigma>1" and c: "contents_c \<sigma>1 r = ys"
    using res by (simp_all add: result_c_def b)
  have nm: "reals \<sigma>1 noiseMag = reals \<sigma> noiseMag"
    using k assms(3) by (simp add: keeps_reals)
  let ?f = "\<lambda>k \<sigma>. bindE (rd_result \<sigma> r k) (\<lambda>z. bindE (rd_r \<sigma> noiseMag k) (\<lambda>v.
             wr_r \<sigma> noiseMag k (v + cmod z)))"
  let ?g = "\<lambda>k nm. bindE (idx ys k) (\<lambda>z. bindE (idx nm k) (\<lambda>v. upd nm k (v + cmod z)))"
  have "foldE ?f [0..<FrameSize] (set_r \<sigma>1 noiseMag (reals \<sigma>1 noiseMag)) =
      bindE (foldE ?g [0..<FrameSize] (reals \<sigma>1 noiseMag)) (\<lambda>t. Inr (set_r \<sigma>1 noiseMag t))"
    by (rule foldE_emb) (simp add: bindE_assoc rd_result_def c)
  then have "foldE ?f [0..<FrameSize] \<sigma>1 =
      bindE (foldE ?g [0..<FrameSize] (reals \<sigma>1 noiseMag)) (\<lambda>t. Inr (set_r \<sigma>1 noiseMag t))"
    by simp
  then have eq: "foldE ?f [0..<FrameSize] \<sigma>1 =
      bindE (foldE ?g [0..<FrameSize] (reals \<sigma> noiseMag)) (\<lambda>t. Inr (set_r \<sigma>1 noiseMag t))"
    unfolding nm .
  have "sim (\<lambda>nm \<sigma>'. keeps {noiseMag} \<sigma> \<sigma>' \<and> reals \<sigma>' noiseMag = nm)
      (foldE ?f [0..<FrameSize] \<sigma>1) (foldE ?g [0..<FrameSize] (reals \<sigma> noiseMag))"
  proof (rule sim_emb [OF eq])
    fix t
    have "keeps {noiseMag} \<sigma> \<sigma>1"
      using k by (rule keeps_mono) simp
    then have "keeps {noiseMag} \<sigma> (set_r \<sigma>1 noiseMag t)"
      by (rule keeps_trans) (rule keeps_set_r)
    then show "keeps {noiseMag} \<sigma> (set_r \<sigma>1 noiseMag t) \<and> reals (set_r \<sigma>1 noiseMag t) noiseMag = t"
      by simp
  qed
  then show "sim (\<lambda>nm \<sigma>'. keeps {noiseMag} \<sigma> \<sigma>' \<and> reals \<sigma>' noiseMag = nm)
      (case b of (spectrum, \<sigma>1) \<Rightarrow> foldE (\<lambda>k \<sigma>. bindE (rd_result \<sigma> spectrum k) (\<lambda>z.
          bindE (rd_r \<sigma> noiseMag k) (\<lambda>v. wr_r \<sigma> noiseMag k (v + cmod z)))) [0..<FrameSize] \<sigma>1)
      (foldE ?g [0..<FrameSize] (reals \<sigma> noiseMag))"
    by (simp add: b)
qed

lemma subtract_st_Some:
  "foldE (subtract_bin_st noiseMag (Some a)) ks \<sigma> =
     bindE (foldE (subtract_bin (reals \<sigma> noiseMag)) ks (cplxs \<sigma> a)) (\<lambda>ys. Inr (set_c \<sigma> a ys))"
proof -
  have "foldE (subtract_bin_st noiseMag (Some a)) ks (set_c \<sigma> a (cplxs \<sigma> a)) =
     bindE (foldE (subtract_bin (reals \<sigma> noiseMag)) ks (cplxs \<sigma> a)) (\<lambda>ys. Inr (set_c \<sigma> a ys))"
    by (rule foldE_emb) (simp add: subtract_bin_st_def subtract_bin_def Let_def bindE_assoc rd_r_def)
  then show ?thesis
    by simp
qed

lemma subtract_st_None:
  "foldE (subtract_bin_st noiseMag None) ks \<sigma> =
     bindE (foldE (subtract_bin nm) ks []) (\<lambda>ys. Inr \<sigma>)"
  by (cases ks) (simp_all add: subtract_bin_st_def subtract_bin_def rd_result_def idx_def)

lemma subtract_st_sim:
  assumes "result_c \<sigma> ys (r, \<sigma>1)" and "noiseMag < fresh \<sigma>"
  shows "sim (\<lambda>zs \<sigma>2. result_c \<sigma> zs (r, \<sigma>2))
           (foldE (subtract_bin_st noiseMag r) ks \<sigma>1)
           (foldE (subtract_bin (reals \<sigma> noiseMag)) ks ys)"
proof -
  have k: "keeps {} \<sigma> \<sigma>1" and c: "contents_c \<sigma>1 r = ys"
    using assms(1) by (simp_all add: result_c_def)
  have nm: "reals \<sigma>1 noiseMag = reals \<sigma> noiseMag"
    using k assms(2) by (simp add: keeps_reals)
  show ?thesis
  proof (cases r)
    case None
    then have ys: "ys = []"
      using c by simp
    show ?thesis
      unfolding None ys subtract_st_None [of _ _ _ "reals \<sigma> noiseMag"]
    proof (rule sim_emb [OF refl])
      fix zs
      assume "foldE (subtract_bin (reals \<sigma> noiseMag)) ks [] = Inr zs"
      then have "zs = []"
        by (cases ks) (simp_all add: subtract_bin_def idx_def)
      then show "result_c \<sigma> zs (None, \<sigma>1)"
        using assms(1) by (simp add: result_c_def None)
    qed
  next
    case (Some a)
    have a: "fresh \<sigma> \<le> a" "a < fresh \<sigma>1" "cplxs \<sigma>1 a = ys"
      using assms(1) by (simp_all add: result_c_def Some)
    have eq: "foldE (subtract_bin_st noiseMag (Some a)) ks \<sigma>1 =
        bindE (foldE (subtract_bin (reals \<sigma> noiseMag)) ks ys) (\<lambda>zs. Inr (set_c \<sigma>1 a zs))"
      by (simp add: subtract_st_Some nm a)
    show ?thesis
      unfolding Some
    proof (rule sim_emb [OF eq])
      fix zs
      have "keeps {} \<sigma> (set_c \<sigma>1 a zs)"
        using a(1) by (intro keeps_new [OF k keeps_set_c]) simp
      then show "result_c \<sigma> zs (Some a, set_c \<sigma>1 a zs)"
        using a by (simp add: result_c_def)
    qed
  qed
qed

lemma both_same: "output \<noteq> windowSum \<Longrightarrow> both \<sigma> output windowSum (reals \<sigma> output, reals \<sigma> windowSum) = \<sigma>"
  by (simp add: both_def)

lemma both_access:
  assumes "output \<noteq> windowSum"
  shows "rd_r (both \<sigma> output windowSum (ov, wv)) output i = idx ov i"
    and "rd_r (both \<sigma> output windowSum (ov, wv)) windowSum i = idx wv i"
    and "a \<noteq> output \<Longrightarrow> a \<noteq> windowSum \<Longrightarrow> rd_r (both \<sigma> output windowSum (ov, wv)) a i = idx (reals \<sigma> a) i"
    and "contents_c (both \<sigma> output windowSum (ov, wv)) r = contents_c \<sigma> r"
    and "wr_r (both \<sigma> output windowSum (ov, wv)) output i v =
           bindE (upd ov i v) (\<lambda>ov'. Inr (both \<sigma> output windowSum (ov', wv)))"
    and "wr_r (both \<sigma> output windowSum (ov, wv)) windowSum i v =
           bindE (upd wv i v) (\<lambda>wv'. Inr (both \<sigma> output windowSum (ov, wv')))"
  using assms
  by (auto simp: both_def rd_r_def wr_r_def set_r_def upd_def fun_upd_twist contents_c_def
      split: option.splits)

lemma both_keeps:
  "keeps {output, windowSum} \<sigma> (both \<sigma> output windowSum s)"
  by (cases s) (simp add: both_def keeps_def set_r_def)

lemma both_reals:
  "output \<noteq> windowSum \<Longrightarrow> reals (both \<sigma> output windowSum (ov, wv)) output = ov"
  "reals (both \<sigma> output windowSum (ov, wv)) windowSum = wv"
  by (simp_all add: both_def)

lemma overlap_add_st_eq:
  assumes "output \<noteq> windowSum" and "window \<noteq> output" and "window \<noteq> windowSum"
  shows "foldE (overlap_add_st n start cleaned window output windowSum) js \<sigma> =
     bindE (foldE (overlap_add n start (contents_c \<sigma> cleaned) (reals \<sigma> window)) js
              (reals \<sigma> output, reals \<sigma> windowSum))
       (\<lambda>s. Inr (both \<sigma> output windowSum s))"
proof -
  have step: "overlap_add_st n start cleaned window output windowSum j (both \<sigma> output windowSum s) =
      bindE (overlap_add n start (contents_c \<sigma> cleaned) (reals \<sigma> window) j s)
        (\<lambda>s'. Inr (both \<sigma> output windowSum s'))" for j s
  proof (cases s)
    case (Pair ov wv)
    show ?thesis
    proof (cases "j < length (reals \<sigma> window)")
      case True
      then show ?thesis
        using assms
        by (simp add: Pair overlap_add_st_def overlap_add_def Let_def both_access bindE_assoc
            rd_result_def)
    next
      case False
      then show ?thesis
        using assms
        by (simp add: Pair overlap_add_st_def overlap_add_def Let_def both_access bindE_assoc
            rd_result_def idx_def)
    qed
  qed
  have "foldE (overlap_add_st n start cleaned window output windowSum) js
          (both \<sigma> output windowSum (reals \<sigma> output, reals \<sigma> windowSum)) =
     bindE (foldE (overlap_add n start (contents_c \<sigma> cleaned) (reals \<sigma> window)) js
              (reals \<sigma> output, reals \<sigma> windowSum))
       (\<lambda>s. Inr (both \<sigma> output windowSum s))"
    by (rule foldE_emb) (rule step)
  then show ?thesis
    using assms(1) by (simp add: both_same)
qed

lemma process_frame_st_sim:
  assumes lt: "samples < fresh \<sigma>" "window < fresh \<sigma>" "noiseMag < fresh \<sigma>"
    and acc: "output < fresh \<sigma>" "windowSum < fresh \<sigma>"
    and ne: "output \<noteq> windowSum" "window \<noteq> output" "window \<noteq> windowSum"
  shows "sim (\<lambda>s \<sigma>'. keeps {output, windowSum} \<sigma> \<sigma>' \<and> reals \<sigma>' output = fst s \<and>
                reals \<sigma>' windowSum = snd s)
           (process_frame_st samples window noiseMag n output windowSum fi \<sigma>)
           (process_frame (reals \<sigma> samples) (reals \<sigma> window) (reals \<sigma> noiseMag) n fi
              (reals \<sigma> output, reals \<sigma> windowSum))"
  unfolding process_frame_st_def process_frame_def Let_def
proof (rule sim_bind [OF frame_spectrum_st_sim [OF lt(1,2)]])
  fix ys and b :: "nat option \<times> store"
  assume res: "result_c \<sigma> ys b"
  obtain r \<sigma>1 where b: "b = (r, \<sigma>1)"
    by (cases b)
  let ?R = "\<lambda>s \<sigma>'. keeps {output, windowSum} \<sigma> \<sigma>' \<and> reals \<sigma>' output = fst s \<and>
                reals \<sigma>' windowSum = snd s"
  have "sim ?R
      (bindE (foldE (subtract_bin_st noiseMag r) [0..<FrameSize] \<sigma>1) (\<lambda>\<sigma>2.
        bindE (IFFT_st r \<sigma>2) (\<lambda>(cleaned, \<sigma>3).
          foldE (overlap_add_st n (fi * HopSize) cleaned window output windowSum) [0..<FrameSize] \<sigma>3)))
      (bindE (foldE (subtract_bin (reals \<sigma> noiseMag)) [0..<FrameSize] ys) (\<lambda>spectrum.
        bindE (IFFT spectrum) (\<lambda>cleaned.
          foldE (overlap_add n (fi * HopSize) cleaned (reals \<sigma> window)) [0..<FrameSize]
            (reals \<sigma> output, reals \<sigma> windowSum))))"
  proof (rule sim_bind [OF subtract_st_sim [OF res [unfolded b] lt(3)]])
    fix zs \<sigma>2
    assume res2: "result_c \<sigma> zs (r, \<sigma>2)"
    have k2: "keeps {} \<sigma> \<sigma>2" and c2: "contents_c \<sigma>2 r = zs"
      using res2 by (simp_all add: result_c_def)
    have "valid \<sigma>2 r"
      using res2 by (simp add: result_c_def valid_def split: option.splits)
    then have "sim (result_c \<sigma>2) (IFFT_st r \<sigma>2) (IFFT (contents_c \<sigma>2 r))"
      by (rule IFFT_st_sim)
    then have ifft: "sim (result_c \<sigma>2) (IFFT_st r \<sigma>2) (IFFT zs)"
      by (simp add: c2)
    show "sim ?R
        (bindE (IFFT_st r \<sigma>2) (\<lambda>(cleaned, \<sigma>3).
          foldE (overlap_add_st n (fi * HopSize) cleaned window output windowSum) [0..<FrameSize] \<sigma>3))
        (bindE (IFFT zs) (\<lambda>cleaned.
          foldE (overlap_add n (fi * HopSize) cleaned (reals \<sigma> window)) [0..<FrameSize]
            (reals \<sigma> output, reals \<sigma> windowSum)))"
    proof (rule sim_bind [OF ifft])
      fix cs and b3 :: "nat option \<times> store"
      assume res3: "result_c \<sigma>2 cs b3"
      obtain cleaned \<sigma>3 where b3: "b3 = (cleaned, \<sigma>3)"
        by (cases b3)
      have k3: "keeps {} \<sigma>2 \<sigma>3" and c3: "contents_c \<sigma>3 cleaned = cs"
        using res3 by (simp_all add: result_c_def b3)
      have k: "keeps {} \<sigma> \<sigma>3"
        using k2 k3 by (rule keeps_trans)
      have w: "reals \<sigma>3 window = reals \<sigma> window"
        using k lt(2) by (simp add: keeps_reals)
      have eq: "foldE (overlap_add_st n (fi * HopSize) cleaned window output windowSum) [0..<FrameSize] \<sigma>3 =
          bindE (foldE (overlap_add n (fi * HopSize) cs (reals \<sigma> window)) [0..<FrameSize]
                   (reals \<sigma>3 output, reals \<sigma>3 windowSum))
            (\<lambda>s. Inr (both \<sigma>3 output windowSum s))"
        using overlap_add_st_eq [OF ne, of n "fi * HopSize" cleaned "[0..<FrameSize]" \<sigma>3]
        by (simp only: c3 w)
      show "sim ?R
          (case b3 of (cleaned, \<sigma>3) \<Rightarrow>
             foldE (overlap_add_st n (fi * HopSize) cleaned window output windowSum) [0..<FrameSize] \<sigma>3)
          (foldE (overlap_add n (fi * HopSize) cs (reals \<sigma> window)) [0..<FrameSize]
             (reals \<sigma> output, reals \<sigma> windowSum))"
      proof -
        have ow: "reals \<sigma>3 output = reals \<sigma> output" "reals \<sigma>3 windowSum = reals \<sigma> windowSum"
          using k acc by (simp_all add: keeps_reals)
        show ?thesis
          unfolding b3 prod.case eq ow
        proof (rule sim_emb [OF refl])
          fix s :: "real list \<times> real list"
          have "keeps {output, windowSum} \<sigma> \<sigma>3"
            using k by (rule keeps_mono) simp
          then have "keeps {output, windowSum} \<sigma> (both \<sigma>3 output windowSum s)"
            by (rule keeps_trans) (rule both_keeps)
          then show "keeps {output, windowSum} \<sigma> (both \<sigma>3 output windowSum s) \<and>
              reals (both \<sigma>3 output windowSum s) output = fst s \<and>
              reals (both \<sigma>3 output windowSum s) windowSum = snd s"
            using ne(1) by (cases s) (simp add: both_reals)
        qed
      qed
    qed
  qed
  then show "sim ?R
      (case b of (spectrum, \<sigma>1) \<Rightarrow>
         bindE (foldE (subtract_bin_st noiseMag spectrum) [0..<FrameSize] \<sigma>1) (\<lambda>\<sigma>2.
         bindE (IFFT_st spectrum \<sigma>2) (\<lambda>(cleaned, \<sigma>3).
           foldE (overlap_add_st n (fi * HopSize) cleaned window output windowSum) [0..<FrameSize] \<sigma>3)))
      (bindE (foldE (subtract_bin (reals \<sigma> noiseMag)) [0..<FrameSize] ys) (\<lambda>spectrum.
        bindE (IFFT spectrum) (\<lambda>cleaned.
          foldE (overlap_add n (fi * HopSize) cleaned (reals \<sigma> window)) [0..<FrameSize]
            (reals \<sigma> output, reals \<sigma> windowSum))))"
    by (simp add: b)
qed

lemma noise_loop_sim:
  assumes lt: "samples < fresh \<sigma>" "window < fresh \<sigma>" "noiseMag < fresh \<sigma>"
    and ne: "noiseMag \<noteq> samples" "noiseMag \<noteq> window"
  shows "sim (\<lambda>nm \<sigma>'. keeps {noiseMag} \<sigma> \<sigma>' \<and> reals \<sigma>' noiseMag = nm)
           (foldE (noise_frame_st samples window noiseMag) fis \<sigma>)
           (foldE (noise_frame (reals \<sigma> samples) (reals \<sigma> window)) fis (reals \<sigma> noiseMag))"
proof (rule sim_foldE)
  show "keeps {noiseMag} \<sigma> \<sigma> \<and> reals \<sigma> noiseMag = reals \<sigma> noiseMag"
    by simp
next
  fix fi and nm :: "real list" and \<sigma>1
  assume "keeps {noiseMag} \<sigma> \<sigma>1 \<and> reals \<sigma>1 noiseMag = nm"
  then have k: "keeps {noiseMag} \<sigma> \<sigma>1" and nm: "reals \<sigma>1 noiseMag = nm"
    by simp_all
  have lt1: "samples < fresh \<sigma>1" "window < fresh \<sigma>1" "noiseMag < fresh \<sigma>1"
    using k lt by (simp_all add: keeps_fresh)
  have same: "reals \<sigma>1 samples = reals \<sigma> samples" "reals \<sigma>1 window = reals \<sigma> window"
    using k lt ne by (simp_all add: keeps_reals)
  have "sim (\<lambda>nm \<sigma>'. keeps {noiseMag} \<sigma>1 \<sigma>' \<and> reals \<sigma>' noiseMag = nm)
      (noise_frame_st samples window noiseMag fi \<sigma>1)
      (noise_frame (reals \<sigma> samples) (reals \<sigma> window) fi nm)"
    using noise_frame_st_sim [OF lt1, of fi] by (simp only: same nm)
  then show "sim (\<lambda>nm \<sigma>'. keeps {noiseMag} \<sigma> \<sigma>' \<and> reals \<sigma>' noiseMag = nm)
      (noise_frame_st samples window noiseMag fi \<sigma>1)
      (noise_frame (reals \<sigma> samples) (reals \<sigma> window) fi nm)"
  proof (rule sim_mono)
    fix y \<sigma>2
    assume "keeps {noiseMag} \<sigma>1 \<sigma>2 \<and> reals \<sigma>2 noiseMag = y"
    then show "keeps {noiseMag} \<sigma> \<sigma>2 \<and> reals \<sigma>2 noiseMag = y"
      using keeps_trans [OF k] by simp
  qed
qed

lemma frames_loop_sim:
  assumes lt: "samples < fresh \<sigma>" "window < fresh \<sigma>" "noiseMag < fresh \<sigma>"
    and acc: "output < fresh \<sigma>" "windowSum < fresh \<sigma>"
    and ne: "output \<noteq> windowSum" "window \<noteq> output" "window \<noteq> windowSum"
    and ne': "samples \<noteq> output" "samples \<noteq> windowSum" "noiseMag \<noteq> output" "noiseMag \<noteq> windowSum"
  shows "sim (\<lambda>s \<sigma>'. keeps {output, windowSum} \<sigma> \<sigma>' \<and> reals \<sigma>' output = fst s \<and>
                reals \<sigma>' windowSum = snd s)
           (foldE (process_frame_st samples window noiseMag n output windowSum) fis \<sigma>)
           (foldE (process_frame (reals \<sigma> samples) (reals \<sigma> window) (reals \<sigma> noiseMag) n) fis
              (reals \<sigma> output, reals \<sigma> windowSum))"
proof (rule sim_foldE)
  show "keeps {output, windowSum} \<sigma> \<sigma> \<and>
      reals \<sigma> output = fst (reals \<sigma> output, reals \<sigma> windowSum) \<and>
      reals \<sigma> windowSum = snd (reals \<sigma> output, reals \<sigma> windowSum)"
    by simp
next
  fix fi and s :: "real list \<times> real list" and \<sigma>1
  assume "keeps {output, windowSum} \<sigma> \<sigma>1 \<and> reals \<sigma>1 output = fst s \<and> reals \<sigma>1 windowSum = snd s"
  then have k: "keeps {output, windowSum} \<sigma> \<sigma>1"
    and s: "(reals \<sigma>1 output, reals \<sigma>1 windowSum) = s"
    by simp_all
  have lt1: "samples < fresh \<sigma>1" "window < fresh \<sigma>1" "noiseMag < fresh \<sigma>1"
    and acc1: "output < fresh \<sigma>1" "windowSum < fresh \<sigma>1"
    using k lt acc by (simp_all add: keeps_fresh)
  have same: "reals \<sigma>1 samples = reals \<sigma> samples" "reals \<sigma>1 window = reals \<sigma> window"
      "reals \<sigma>1 noiseMag = reals \<sigma> noiseMag"
    using k lt ne ne' by (simp_all add: keeps_reals)
  have "sim (\<lambda>s \<sigma>'. keeps {output, windowSum} \<sigma>1 \<sigma>' \<and> reals \<sigma>' output = fst s \<and>
                reals \<sigma>' windowSum = snd s)
      (process_frame_st samples window noiseMag n output windowSum fi \<sigma>1)
      (process_frame (reals \<sigma> samples) (reals \<sigma> window) (reals \<sigma> noiseMag) n fi s)"
    using process_frame_st_sim [OF lt1 acc1 ne, of n fi] by (simp only: same s)
  then show "sim (\<lambda>s \<sigma>'. keeps {output, windowSum} \<sigma> \<sigma>' \<and> reals \<sigma>' output = fst s \<and>
                reals \<sigma>' windowSum = snd s)
      (process_frame_st samples window noiseMag n output windowSum fi \<sigma>1)
      (process_frame (reals \<sigma> samples) (reals \<sigma> window) (reals \<sigma> noiseMag) n fi s)"
  proof (rule sim_mono)
    fix y :: "real list \<times> real list" and \<sigma>2
    assume "keeps {output, windowSum} \<sigma>1 \<sigma>2 \<and> reals \<sigma>2 output = fst y \<and> reals \<sigma>2 windowSum = snd y"
    then show "keeps {output, windowSum} \<sigma> \<sigma>2 \<and> reals \<sigma>2 output = fst y \<and> reals \<sigma>2 windowSum = snd y"
      using keeps_trans [OF k] by simp
  qed
qed

lemma divide_st_eq:
  assumes "windowSum \<noteq> output"
  shows "foldE (divide_step_st windowSum output) is \<sigma> =
     bindE (foldE (divide_step (reals \<sigma> windowSum)) is (reals \<sigma> output))
       (\<lambda>ov. Inr (set_r \<sigma> output ov))"
proof -
  have w: "rd_r (set_r \<sigma> output t) windowSum i = idx (reals \<sigma> windowSum) i" for t i
    using assms by (simp add: rd_r_def)
  have "foldE (divide_step_st windowSum output) is (set_r \<sigma> output (reals \<sigma> output)) =
     bindE (foldE (divide_step (reals \<sigma> windowSum)) is (reals \<sigma> output))
       (\<lambda>ov. Inr (set_r \<sigma> output ov))"
  proof (rule foldE_emb)
    fix i t
    show "divide_step_st windowSum output i (set_r \<sigma> output t) =
        bindE (divide_step (reals \<sigma> windowSum) i t) (\<lambda>t'. Inr (set_r \<sigma> output t'))"
      by (cases "idx (reals \<sigma> windowSum) i")
        (simp_all add: divide_step_st_def divide_step_def w bindE_assoc)
  qed
  then show ?thesis
    by simp
qed

lemma result_r_new:
  assumes "keeps {} \<sigma> \<sigma>'" and "fresh \<sigma> \<le> a" and "a < fresh \<sigma>'"
  shows "result_r \<sigma> ys (Some a, set_r \<sigma>' a ys)"
proof -
  have "keeps {} \<sigma> (set_r \<sigma>' a ys)"
    using assms(2) by (intro keeps_new [OF assms(1) keeps_set_r]) simp
  then show ?thesis
    using assms by (simp add: result_r_def)
qed

lemma denoise_frames_sim:
  assumes "samples < fresh \<sigma>"
  shows "sim (result_r \<sigma>) (denoise_frames samples n \<sigma>) (denoised (reals \<sigma> samples) n)"
proof -
  define T where "T = (if (n - FrameSize) div HopSize + 1 < 1 then 1 else (n - FrameSize) div HopSize + 1)"
  define nf where "nf = (if NoiseFrames > T then T else NoiseFrames)"
  have pure: "denoised (reals \<sigma> samples) n =
      bindE (foldE (noise_frame (reals \<sigma> samples) (HannWindow (int FrameSize))) [0..<nf]
               (replicate FrameSize 0)) (\<lambda>noiseSum.
      bindE (foldE (process_frame (reals \<sigma> samples) (HannWindow (int FrameSize))
                      (map (\<lambda>v. v / real nf) noiseSum) n) [0..<T]
               (replicate n 0, replicate n 0)) (\<lambda>s.
      bindE (foldE (divide_step (snd s)) [0..<n] (fst s)) (\<lambda>ov.
      Inr (normalize ov 0.95))))"
    by (simp only: denoised_def Let_def T_def nf_def split_def)
  let ?S = "reals \<sigma> samples"
  let ?W = "HannWindow (int FrameSize)"
  let ?w = "fresh \<sigma>"
  let ?m = "Suc (fresh \<sigma>)"
  let ?\<sigma>3 = "snd (new_r (replicate FrameSize 0) (snd (new_r ?W \<sigma>)))"
  let ?\<sigma>7 = "\<lambda>\<sigma>4. snd (new_r (replicate n 0) (snd (new_r (replicate n 0)
                 (set_r \<sigma>4 ?m (map (\<lambda>v. v / real nf) (reals \<sigma>4 ?m))))))"
  have unfold: "denoise_frames samples n \<sigma> =
      bindE (foldE (noise_frame_st samples ?w ?m) [0..<nf] ?\<sigma>3) (\<lambda>\<sigma>4.
      bindE (foldE (process_frame_st samples ?w ?m n (fresh \<sigma>4) (Suc (fresh \<sigma>4))) [0..<T] (?\<sigma>7 \<sigma>4))
        (\<lambda>\<sigma>8.
      bindE (foldE (divide_step_st (Suc (fresh \<sigma>4)) (fresh \<sigma>4)) [0..<n] \<sigma>8) (\<lambda>\<sigma>9.
      Inr (Some (fresh \<sigma>4), set_r \<sigma>9 (fresh \<sigma>4) (normalize (reals \<sigma>9 (fresh \<sigma>4)) 0.95)))))"
    by (simp add: denoise_frames_def Let_def split_def T_def nf_def)
  have s: "samples \<noteq> ?w" "samples \<noteq> ?m"
    using assms(1) by simp_all
  have k3: "keeps {} \<sigma> ?\<sigma>3"
    by (rule keeps_trans [of _ _ "snd (new_r ?W \<sigma>)"]) simp_all
  have f3: "fresh ?\<sigma>3 = Suc (Suc (fresh \<sigma>))"
    by simp
  have r3: "reals ?\<sigma>3 samples = ?S" "reals ?\<sigma>3 ?w = ?W" "reals ?\<sigma>3 ?m = replicate FrameSize 0"
    using s by simp_all
  have noise: "sim (\<lambda>nm \<sigma>'. keeps {?m} ?\<sigma>3 \<sigma>' \<and> reals \<sigma>' ?m = nm)
      (foldE (noise_frame_st samples ?w ?m) [0..<nf] ?\<sigma>3)
      (foldE (noise_frame ?S ?W) [0..<nf] (replicate FrameSize 0))"
    using noise_loop_sim [of samples ?\<sigma>3 ?w ?m "[0..<nf]"] assms(1)
    by (simp only: r3 f3; simp?)
  show ?thesis
    unfolding unfold pure
  proof (rule sim_bind [OF noise])
    fix noiseSum \<sigma>4
    assume "keeps {?m} ?\<sigma>3 \<sigma>4 \<and> reals \<sigma>4 ?m = noiseSum"
    then have k4: "keeps {?m} ?\<sigma>3 \<sigma>4" and r4: "reals \<sigma>4 ?m = noiseSum"
      by simp_all
    let ?nm = "map (\<lambda>v. v / real nf) noiseSum"
    let ?o = "fresh \<sigma>4"
    let ?s = "Suc (fresh \<sigma>4)"
    let ?\<sigma>5 = "set_r \<sigma>4 ?m ?nm"
    let ?\<sigma>7' = "snd (new_r (replicate n 0) (snd (new_r (replicate n 0) ?\<sigma>5)))"
    have \<sigma>7: "?\<sigma>7 \<sigma>4 = ?\<sigma>7'"
      by (simp only: r4)
    have f4: "Suc (Suc (fresh \<sigma>)) \<le> fresh \<sigma>4"
      using k4 by (simp add: keeps_def)
    have k04: "keeps {} \<sigma> \<sigma>4"
      by (rule keeps_new [OF k3 k4]) simp
    have k05: "keeps {} \<sigma> ?\<sigma>5"
      by (rule keeps_new [OF k04 keeps_set_r]) simp
    have k57: "keeps {} ?\<sigma>5 ?\<sigma>7'"
      by (rule keeps_trans [of _ _ "snd (new_r (replicate n 0) ?\<sigma>5)"]) simp_all
    have k07: "keeps {} \<sigma> ?\<sigma>7'"
      using k05 k57 by (rule keeps_trans)
    have f7: "fresh ?\<sigma>7' = Suc (Suc (fresh \<sigma>4))"
      by simp
    have d: "samples \<noteq> ?o" "samples \<noteq> ?s" "?w \<noteq> ?o" "?w \<noteq> ?s" "?m \<noteq> ?o" "?m \<noteq> ?s" "?o \<noteq> ?s"
      using f4 assms(1) by simp_all
    have "reals \<sigma>4 samples = reals ?\<sigma>3 samples" "reals \<sigma>4 ?w = reals ?\<sigma>3 ?w"
      using k4 assms(1) by (simp_all add: keeps_reals)
    then have r4': "reals \<sigma>4 samples = ?S" "reals \<sigma>4 ?w = ?W"
      by (simp_all only: r3)
    have r7: "reals ?\<sigma>7' samples = ?S" "reals ?\<sigma>7' ?w = ?W" "reals ?\<sigma>7' ?m = ?nm"
        "reals ?\<sigma>7' ?o = replicate n 0" "reals ?\<sigma>7' ?s = replicate n 0"
      using d s r4' by simp_all
    let ?R = "\<lambda>s \<sigma>'. keeps {?o, ?s} ?\<sigma>7' \<sigma>' \<and> reals \<sigma>' ?o = fst s \<and> reals \<sigma>' ?s = snd s"
    have frames: "sim ?R
        (foldE (process_frame_st samples ?w ?m n ?o ?s) [0..<T] ?\<sigma>7')
        (foldE (process_frame ?S ?W ?nm n) [0..<T] (replicate n 0, replicate n 0))"
      using frames_loop_sim [of samples ?\<sigma>7' ?w ?m ?o ?s n "[0..<T]"] d f4 assms(1)
      by (simp only: r7 f7; simp?)
    show "sim (result_r \<sigma>)
        (bindE (foldE (process_frame_st samples ?w ?m n ?o ?s) [0..<T] (?\<sigma>7 \<sigma>4)) (\<lambda>\<sigma>8.
           bindE (foldE (divide_step_st ?s ?o) [0..<n] \<sigma>8) (\<lambda>\<sigma>9.
           Inr (Some ?o, set_r \<sigma>9 ?o (normalize (reals \<sigma>9 ?o) 0.95)))))
        (bindE (foldE (process_frame ?S ?W ?nm n) [0..<T] (replicate n 0, replicate n 0)) (\<lambda>s.
           bindE (foldE (divide_step (snd s)) [0..<n] (fst s)) (\<lambda>ov. Inr (normalize ov 0.95))))"
      unfolding \<sigma>7
    proof (rule sim_bind [OF frames])
      fix acc :: "real list \<times> real list" and \<sigma>8
      assume "keeps {?o, ?s} ?\<sigma>7' \<sigma>8 \<and> reals \<sigma>8 ?o = fst acc \<and> reals \<sigma>8 ?s = snd acc"
      then have k8: "keeps {?o, ?s} ?\<sigma>7' \<sigma>8" and r8: "reals \<sigma>8 ?o = fst acc" "reals \<sigma>8 ?s = snd acc"
        by simp_all
      have k08: "keeps {} \<sigma> \<sigma>8"
        using f4 by (intro keeps_new [OF k07 k8]) auto
      have f8: "?o < fresh \<sigma>8"
        using k8 by (simp add: keeps_def)
      have eq: "bindE (foldE (divide_step_st ?s ?o) [0..<n] \<sigma>8) (\<lambda>\<sigma>9.
            Inr (Some ?o, set_r \<sigma>9 ?o (normalize (reals \<sigma>9 ?o) 0.95))) =
          bindE (bindE (foldE (divide_step (snd acc)) [0..<n] (fst acc)) (\<lambda>ov. Inr (normalize ov 0.95)))
            (\<lambda>ys. Inr (Some ?o, set_r \<sigma>8 ?o ys))"
        by (simp add: divide_st_eq r8 bindE_assoc)
      show "sim (result_r \<sigma>)
          (bindE (foldE (divide_step_st ?s ?o) [0..<n] \<sigma>8) (\<lambda>\<sigma>9.
             Inr (Some ?o, set_r \<sigma>9 ?o (normalize (reals \<sigma>9 ?o) 0.95))))
          (bindE (foldE (divide_step (snd acc)) [0..<n] (fst acc)) (\<lambda>ov. Inr (normalize ov 0.95)))"
      proof (rule sim_emb [OF eq])
        fix ys
        show "result_r \<sigma> ys (Some ?o, set_r \<sigma>8 ?o ys)"
          using k08 f4 f8 by (intro result_r_new) simp_all
      qed
    qed
  qed
qed

subsection \<open>No input is written\<close>

lemma result_r_trans:
  assumes "keeps {} \<sigma> \<sigma>1" and "result_r \<sigma>1 ys p"
  shows "result_r \<sigma> ys p"
proof -
  obtain r \<sigma>' where p: "p = (r, \<sigma>')"
    by (cases p)
  have "fresh \<sigma> \<le> fresh \<sigma>1"
    using assms(1) by (simp add: keeps_def)
  then show ?thesis
    using assms keeps_trans [of "{}" \<sigma> \<sigma>1 \<sigma>']
    by (auto simp: result_r_def p split: option.splits)
qed

lemma Denoise_denoised:
  assumes "samples \<noteq> []"
  shows "Denoise samples sampleRate =
     denoised (if length samples < FrameSize then copy_slice (replicate FrameSize 0) samples else samples)
       (if length samples < FrameSize then FrameSize else length samples)"
  using assms
  by (simp add: Denoise_def accumulate_def denoised_def Let_def bindE_assoc split_def)

lemma denoise_at_sim:
  assumes "a < fresh \<sigma>"
  shows "sim (result_r \<sigma>) (denoise_at a \<sigma>) (Denoise (reals \<sigma> a) sampleRate)"
proof (cases "reals \<sigma> a = []")
  case True
  then show ?thesis
    by (simp add: denoise_at_def Denoise_def result_r_def)
next
  case False
  note pure = Denoise_denoised [OF False, of sampleRate]
  have a: "a \<noteq> fresh \<sigma>"
    using assms by simp
  show ?thesis
  proof (cases "length (reals \<sigma> a) < FrameSize")
    case short: True
    let ?p = "copy_slice (replicate FrameSize 0) (reals \<sigma> a)"
    let ?\<sigma>b = "snd (new_r ?p \<sigma>)"
    have eq: "denoise_at a \<sigma> = denoise_frames (fresh \<sigma>) FrameSize ?\<sigma>b"
      using False short a by (simp add: denoise_at_def Let_def split_def)
    have pure': "Denoise (reals \<sigma> a) sampleRate = denoised ?p FrameSize"
      using pure short by (simp only: if_True)
    have r: "reals ?\<sigma>b (fresh \<sigma>) = ?p"
      by simp
    have f: "fresh \<sigma> < fresh ?\<sigma>b"
      by simp
    have "sim (result_r ?\<sigma>b) (denoise_frames (fresh \<sigma>) FrameSize ?\<sigma>b) (Denoise (reals \<sigma> a) sampleRate)"
      using denoise_frames_sim [OF f, of FrameSize] unfolding r pure' .
    then show ?thesis
      unfolding eq
    proof (rule sim_mono)
      fix ys b
      assume "result_r ?\<sigma>b ys b"
      then show "result_r \<sigma> ys b"
        by (rule result_r_trans [rotated]) simp
    qed
  next
    case long: False
    have eq: "denoise_at a \<sigma> = denoise_frames a (length (reals \<sigma> a)) \<sigma>"
      using False long by (simp add: denoise_at_def Let_def)
    have pure': "Denoise (reals \<sigma> a) sampleRate = denoised (reals \<sigma> a) (length (reals \<sigma> a))"
      using pure long by (simp only: if_False)
    show ?thesis
      using denoise_frames_sim [OF assms, of "length (reals \<sigma> a)"] unfolding eq pure' .
  qed
qed

lemma Denoise_st_sim:
  assumes "valid \<sigma> x"
  shows "sim (result_r \<sigma>) (Denoise_st x sampleRate \<sigma>) (Denoise (contents_r \<sigma> x) sampleRate)"
proof (cases x)
  case None
  then show ?thesis
    by (simp add: Denoise_st_def Denoise_def result_r_def)
next
  case (Some a)
  then show ?thesis
    using assms denoise_at_sim [of a \<sigma> sampleRate] by (simp add: Denoise_st_def valid_def)
qed

lemma Denoise_total: "\<exists>ys. Denoise samples sampleRate = Inr ys"
proof (cases "samples = []")
  case True
  then show ?thesis
    by (simp add: Denoise_def)
next
  case False
  then show ?thesis
    using Denoise_run [of samples sampleRate] by blast
qed

lemma FFT_cases:
  "length x \<noteq> 0 \<and> (\<nexists>k. length x = 2 ^ k) \<and> FFT x = Inl InvalidLength \<or> (\<exists>y. FFT x = Inr y)"
proof (cases "\<exists>k. length x = 2 ^ k")
  case True
  then show ?thesis
    using FFT_eq_DFT by blast
next
  case False
  then have "\<not> isPowerOf2 (int (length x))"
    by (simp add: isPowerOf2_nat_iff)
  then show ?thesis
    using False by (cases "length x = 0") (simp_all add: FFT_def Let_def)
qed

lemma IFFT_cases:
  "length x \<noteq> 0 \<and> (\<nexists>k. length x = 2 ^ k) \<and> IFFT x = Inl InvalidLength \<or> (\<exists>y. IFFT x = Inr y)"
proof (cases "length x = 0")
  case True
  then show ?thesis
    by (simp add: IFFT_def)
next
  case False
  then show ?thesis
    using FFT_cases [of "map cnj x"] by (auto simp: IFFT_def Let_def)
qed

lemma result_c_input:
  assumes "result_c \<sigma> ys (r, \<sigma>')" and "valid \<sigma> x"
  shows "contents_c \<sigma>' r = ys \<and> keeps {} \<sigma> \<sigma>' \<and> contents_c \<sigma>' x = contents_c \<sigma> x"
  using assms by (cases x) (auto simp: result_c_def valid_def keeps_def)

lemma result_r_input:
  assumes "result_r \<sigma> ys (r, \<sigma>')" and "valid \<sigma> x"
  shows "contents_r \<sigma>' r = ys \<and> keeps {} \<sigma> \<sigma>' \<and> contents_r \<sigma>' x = contents_r \<sigma> x"
  using assms by (cases x) (auto simp: result_r_def valid_def keeps_def)

text \<open>
  Claim C8: \<^verbatim>\<open>FFT\<close>, \<^verbatim>\<open>IFFT\<close> and \<^verbatim>\<open>Denoise\<close> do not mutate their input sequences. A call
  on a slice of the store \<open>\<sigma>\<close> (\<open>x\<close> for the transforms, \<open>s\<close> for \<^verbatim>\<open>Denoise\<close>) returns a
  slice that holds the result of the pure function on the contents of the input, in a
  store \<open>\<sigma>'\<close> in which every array of \<open>\<sigma>\<close> has the contents it had, the input among them;
  the only other outcome is the failure \<open>InvalidLength\<close> of \<^verbatim>\<open>FFT\<close> and \<^verbatim>\<open>IFFT\<close> on a length
  that is neither zero nor a power of two. \<^verbatim>\<open>Denoise\<close> always returns.
\<close>

theorem inputs_not_mutated:
  assumes "valid \<sigma> x" and "valid \<sigma> s"
  shows
    "(length (contents_c \<sigma> x) \<noteq> 0 \<and> (\<nexists>k. length (contents_c \<sigma> x) = 2 ^ k) \<and>
        FFT_st x \<sigma> = Inl InvalidLength \<or>
      (\<exists>r \<sigma>'. FFT_st x \<sigma> = Inr (r, \<sigma>') \<and> FFT (contents_c \<sigma> x) = Inr (contents_c \<sigma>' r) \<and>
         keeps {} \<sigma> \<sigma>' \<and> contents_c \<sigma>' x = contents_c \<sigma> x)) \<and>
     (length (contents_c \<sigma> x) \<noteq> 0 \<and> (\<nexists>k. length (contents_c \<sigma> x) = 2 ^ k) \<and>
        IFFT_st x \<sigma> = Inl InvalidLength \<or>
      (\<exists>r \<sigma>'. IFFT_st x \<sigma> = Inr (r, \<sigma>') \<and> IFFT (contents_c \<sigma> x) = Inr (contents_c \<sigma>' r) \<and>
         keeps {} \<sigma> \<sigma>' \<and> contents_c \<sigma>' x = contents_c \<sigma> x)) \<and>
     (\<exists>r \<sigma>'. Denoise_st s sampleRate \<sigma> = Inr (r, \<sigma>') \<and>
         Denoise (contents_r \<sigma> s) sampleRate = Inr (contents_r \<sigma>' r) \<and>
         keeps {} \<sigma> \<sigma>' \<and> contents_r \<sigma>' s = contents_r \<sigma> s)"
proof (intro conjI)
  have fft: "sim (result_c \<sigma>) (FFT_st x \<sigma>) (FFT (contents_c \<sigma> x))"
    using assms(1) by (rule FFT_st_sim)
  show "length (contents_c \<sigma> x) \<noteq> 0 \<and> (\<nexists>k. length (contents_c \<sigma> x) = 2 ^ k) \<and>
        FFT_st x \<sigma> = Inl InvalidLength \<or>
      (\<exists>r \<sigma>'. FFT_st x \<sigma> = Inr (r, \<sigma>') \<and> FFT (contents_c \<sigma> x) = Inr (contents_c \<sigma>' r) \<and>
         keeps {} \<sigma> \<sigma>' \<and> contents_c \<sigma>' x = contents_c \<sigma> x)"
    using FFT_cases [of "contents_c \<sigma> x"]
  proof (elim disjE conjE exE)
    assume "FFT (contents_c \<sigma> x) = Inl InvalidLength"
      and "length (contents_c \<sigma> x) \<noteq> 0" and "\<nexists>k. length (contents_c \<sigma> x) = 2 ^ k"
    then show ?thesis
      using fft by simp
  next
    fix ys
    assume ys: "FFT (contents_c \<sigma> x) = Inr ys"
    then obtain b where b: "FFT_st x \<sigma> = Inr b" "result_c \<sigma> ys b"
      using fft by (auto simp: sim_Inr_iff)
    obtain r \<sigma>' where "b = (r, \<sigma>')"
      by (cases b)
    then show ?thesis
      using b ys result_c_input [OF _ assms(1), of ys r \<sigma>'] by auto
  qed
next
  have ifft: "sim (result_c \<sigma>) (IFFT_st x \<sigma>) (IFFT (contents_c \<sigma> x))"
    using assms(1) by (rule IFFT_st_sim)
  show "length (contents_c \<sigma> x) \<noteq> 0 \<and> (\<nexists>k. length (contents_c \<sigma> x) = 2 ^ k) \<and>
        IFFT_st x \<sigma> = Inl InvalidLength \<or>
      (\<exists>r \<sigma>'. IFFT_st x \<sigma> = Inr (r, \<sigma>') \<and> IFFT (contents_c \<sigma> x) = Inr (contents_c \<sigma>' r) \<and>
         keeps {} \<sigma> \<sigma>' \<and> contents_c \<sigma>' x = contents_c \<sigma> x)"
    using IFFT_cases [of "contents_c \<sigma> x"]
  proof (elim disjE conjE exE)
    assume "IFFT (contents_c \<sigma> x) = Inl InvalidLength"
      and "length (contents_c \<sigma> x) \<noteq> 0" and "\<nexists>k. length (contents_c \<sigma> x) = 2 ^ k"
    then show ?thesis
      using ifft by simp
  next
    fix ys
    assume ys: "IFFT (contents_c \<sigma> x) = Inr ys"
    then obtain b where b: "IFFT_st x \<sigma> = Inr b" "result_c \<sigma> ys b"
      using ifft by (auto simp: sim_Inr_iff)
    obtain r \<sigma>' where "b = (r, \<sigma>')"
      by (cases b)
    then show ?thesis
      using b ys result_c_input [OF _ assms(1), of ys r \<sigma>'] by auto
  qed
next
  have den: "sim (result_r \<sigma>) (Denoise_st s sampleRate \<sigma>) (Denoise (contents_r \<sigma> s) sampleRate)"
    using assms(2) by (rule Denoise_st_sim)
  obtain ys where ys: "Denoise (contents_r \<sigma> s) sampleRate = Inr ys"
    using Denoise_total by blast
  then obtain b where b: "Denoise_st s sampleRate \<sigma> = Inr b" "result_r \<sigma> ys b"
    using den by (auto simp: sim_Inr_iff)
  obtain r \<sigma>' where "b = (r, \<sigma>')"
    by (cases b)
  then show "\<exists>r \<sigma>'. Denoise_st s sampleRate \<sigma> = Inr (r, \<sigma>') \<and>
         Denoise (contents_r \<sigma> s) sampleRate = Inr (contents_r \<sigma>' r) \<and>
         keeps {} \<sigma> \<sigma>' \<and> contents_r \<sigma>' s = contents_r \<sigma> s"
    using b ys result_r_input [OF _ assms(2), of ys r \<sigma>'] by auto
qed

theorem inputs_not_mutated_witness:
  "(\<exists>r \<sigma>'. FFT_st (Some 0)
       \<lparr>reals = (\<lambda>a. if a = 1 then [1, 2, 3] else []),
        cplxs = (\<lambda>a. if a = 0 then [1, 2] else []), fresh = 2\<rparr> = Inr (r, \<sigma>') \<and>
       cplxs \<sigma>' 0 = [1, 2]) \<and>
   (\<exists>r \<sigma>'. IFFT_st (Some 0)
       \<lparr>reals = (\<lambda>a. if a = 1 then [1, 2, 3] else []),
        cplxs = (\<lambda>a. if a = 0 then [1, 2] else []), fresh = 2\<rparr> = Inr (r, \<sigma>') \<and>
       cplxs \<sigma>' 0 = [1, 2]) \<and>
   (\<exists>r \<sigma>'. Denoise_st (Some 1) 44100
       \<lparr>reals = (\<lambda>a. if a = 1 then [1, 2, 3] else []),
        cplxs = (\<lambda>a. if a = 0 then [1, 2] else []), fresh = 2\<rparr> = Inr (r, \<sigma>') \<and>
       reals \<sigma>' 1 = [1, 2, 3])"
proof -
  let ?\<sigma> = "\<lparr>reals = (\<lambda>a. if a = 1 then [1, 2, 3 :: real] else []),
        cplxs = (\<lambda>a. if a = 0 then [1, 2 :: complex] else []), fresh = 2\<rparr>"
  have v: "valid ?\<sigma> (Some 0)" "valid ?\<sigma> (Some 1)"
    by (simp_all add: valid_def)
  have "length (contents_c ?\<sigma> (Some 0)) = 2 ^ 1"
    by simp
  then have p: "\<not> (\<nexists>k. length (contents_c ?\<sigma> (Some 0)) = 2 ^ k)"
    by blast
  have c: "contents_c ?\<sigma> (Some 0) = [1, 2]" "contents_r ?\<sigma> (Some 1) = [1, 2, 3]"
    by simp_all
  show ?thesis
    using inputs_not_mutated [OF v, of 44100] p unfolding c
    by (simp only: contents_simps) blast
qed

subsection \<open>Rounding in binary64\<close>

lemma rne_of_int [simp]: "rne (of_int n) = n"
  by (simp add: rne_def)

lemma rne_0 [simp]: "rne 0 = 0"
  using rne_of_int [of 0] by simp

lemma rne_numeral [simp]: "rne (numeral n) = numeral n"
  using rne_of_int [of "numeral n"] by simp


lemma rnd_eq:
  assumes "expo x = e" and "rne (x / 2 powi (e - 52)) = n"
    and "\<bar>of_int n * 2 powi (e - 52) :: real\<bar> < 2 ^ 1024"
  shows "rnd x = Fin (of_int n * 2 powi (e - 52))"
  using assms(3) unfolding rnd_def Let_def assms(1) assms(2) by (simp only: not_le [symmetric] if_False)

lemma rnd_0 [simp]: "rnd 0 = Fin 0"
proof -
  have "rnd 0 = Fin (of_int 0 * 2 powi (- 1022 - 52))"
    by (rule rnd_eq) (simp_all add: expo_def)
  then show ?thesis
    by simp
qed




subsection \<open>The transform of two samples in binary64\<close>







subsection \<open>The error of the round trip\<close>




end
